theory Spec2Isabelle
  imports Main
begin

section \<open>Data model\<close>

text \<open>
  The component of \<^verbatim>\<open>tree-view.tsx\<close> works on \<^verbatim>\<open>TreeDataItem\<close> objects. Two kinds
  of objects of that interface occur: the items the caller supplies in the \<^verbatim>\<open>data\<close>
  prop, and the copies that \<^verbatim>\<open>processItems\<close> allocates, which carry the \<^verbatim>\<open>parent\<close>
  back-reference. The copies form a cyclic object graph (a child refers to its parent, the
  parent owns the child), so a copy is modelled with an explicit object identity
  \<open>ref\<close> (the address the copy was allocated at) and the back-reference is the
  identity of the parent object. Children are owned and are kept as a nested list.

  The scalar fields that the event handlers read are kept in the record \<open>ItemFields\<close>
  (the spread \<^verbatim>\<open>{ ...item, parent }\<close> copies them unchanged). The fields \<^verbatim>\<open>icon\<close>,
  \<^verbatim>\<open>selectedIcon\<close>, \<^verbatim>\<open>openIcon\<close> and \<^verbatim>\<open>actions\<close> are read by the renderer only and are
  left out. The optional callback \<^verbatim>\<open>onClick\<close> is modelled by its presence; invoking it
  is recorded in the trace of the component state. A \<^verbatim>\<open>parent\<close> field of a caller's item
  is overwritten by the spread and is therefore not part of the input type.
\<close>

record ItemFields =
  name :: string
  onClick :: bool
  draggable :: "bool option"
  droppable :: "bool option"

datatype TreeDataItem =
  TreeDataItem (item_id: string) (item_attrs: ItemFields) (item_children: "TreeDataItem list option")

type_synonym ref = nat

datatype PNode =
  PNode (ref: ref) (id': string) (attrs: ItemFields) (children: "PNode list option")
    (parent: "ref option")

text \<open>The type \<^verbatim>\<open>TreeDataItem[] | TreeDataItem\<close>, told apart by \<^verbatim>\<open>instanceof Array\<close>.\<close>

datatype 'a items = Single 'a | Array "'a list"

text \<open>Callback invocations and \<^verbatim>\<open>preventDefault\<close>, in the order they happen.\<close>

datatype event =
    OnSelectChange "PNode option"
  | OnClick PNode
  | OnDocumentDrag PNode PNode
  | PreventDefault

record Props =
  data :: "TreeDataItem items"
  initialSelectedItemId :: "string option"
  onSelectChange :: bool
  expandAll :: "bool option"
  onDocumentDrag :: bool

record State =
  selectedItemId :: "string option"
  expandedItems :: "string list"
  draggedItem :: "PNode option"
  trace :: "event list"

section \<open>The model builder\<close>

text \<open>
  \<^verbatim>\<open>processItems\<close> (lines 60-79). Both branches run the same body on an item: allocate
  the copy \<^verbatim>\<open>newItem = { ...item, parent }\<close>, then, when \<^verbatim>\<open>item.children\<close> is present
  (an array is truthy even when empty), replace the children of the copy by the processed
  children, whose parent is the copy. \<open>processItems_item\<close> is that body,
  \<open>processItems_array\<close> is the \<^verbatim>\<open>items.map\<close> of the array branch. The last argument is
  the next free object identity, returned updated.
\<close>

fun processItems_item :: "TreeDataItem \<Rightarrow> ref option \<Rightarrow> ref \<Rightarrow> PNode \<times> ref"
  and processItems_array :: "TreeDataItem list \<Rightarrow> ref option \<Rightarrow> ref \<Rightarrow> PNode list \<times> ref"
where
  "processItems_item (TreeDataItem i f None) par c = (PNode c i f None par, Suc c)"
| "processItems_item (TreeDataItem i f (Some cs)) par c =
     (case processItems_array cs (Some c) (Suc c) of
        (cs', c') \<Rightarrow> (PNode c i f (Some cs') par, c'))"
| "processItems_array [] par c = ([], c)"
| "processItems_array (x # xs) par c =
     (case processItems_item x par c of
        (y, c1) \<Rightarrow> (case processItems_array xs par c1 of (ys, c2) \<Rightarrow> (y # ys, c2)))"

definition processItems :: "TreeDataItem items \<Rightarrow> ref option \<Rightarrow> ref \<Rightarrow> PNode items" where
  "processItems its par c =
     (case its of
        Array xs \<Rightarrow> Array (fst (processItems_array xs par c))
      | Single x \<Rightarrow> Single (fst (processItems_item x par c)))"

definition processedData :: "TreeDataItem items \<Rightarrow> ref \<Rightarrow> PNode items" where
  "processedData d c = processItems d None c"

text \<open>
  \<^verbatim>\<open>flatData\<close> (line 84) is the object literal \<^verbatim>\<open>{}\<close> used as a dictionary. An
  assignment \<^verbatim>\<open>flatData[k] = item\<close> creates or overwrites the own property \<open>k\<close>, except
  for the key \<^verbatim>\<open>__proto__\<close>: that name is an accessor inherited from
  \<^verbatim>\<open>Object.prototype\<close>, and assigning an object to it replaces the prototype of
  \<^verbatim>\<open>flatData\<close> and creates no own property. So the object is its own properties
  together with its prototype: \<open>None\<close> is \<^verbatim>\<open>Object.prototype\<close>, \<open>Some x\<close> is the
  processed object \<open>x\<close>.
\<close>

record FlatData =
  own :: "string \<rightharpoonup> PNode"
  proto :: "PNode option"

definition emptyObject :: FlatData where
  "emptyObject = \<lparr>own = Map.empty, proto = None\<rparr>"

definition flatData_set :: "string \<Rightarrow> PNode \<Rightarrow> FlatData \<Rightarrow> FlatData" where
  "flatData_set k item flatData =
     (if k = ''__proto__'' then flatData\<lparr>proto := Some item\<rparr>
      else flatData\<lparr>own := (own flatData)(k \<mapsto> item)\<rparr>)"

text \<open>
  A read \<^verbatim>\<open>flatData[k]\<close> gives the own property \<open>k\<close> when there is one; for
  \<^verbatim>\<open>__proto__\<close> it gives the prototype; for any other name it gives what the prototype
  chain holds under that name: a property of the processed object that is the prototype
  (also properties outside this model), or a property of \<^verbatim>\<open>Object.prototype\<close> such as
  \<^verbatim>\<open>toString\<close>. What the chain holds belongs to the host and is a parameter \<open>host\<close>
  of the read: \<open>host p k\<close> is the value found under \<open>k\<close> along the chain that starts at
  the prototype \<open>p\<close>. A value is \<^verbatim>\<open>undefined\<close>, a processed object, or another value
  of which only the truthiness matters.
\<close>

datatype jsval = JSUndefined | JSObject PNode | JSOther bool

type_synonym host = "PNode option \<Rightarrow> string \<Rightarrow> jsval"

definition flatData_get :: "host \<Rightarrow> FlatData \<Rightarrow> string \<Rightarrow> jsval" where
  "flatData_get h flatData k =
     (case own flatData k of
        Some item \<Rightarrow> JSObject item
      | None \<Rightarrow>
          if k = ''__proto__'' then
            (case proto flatData of Some x \<Rightarrow> JSObject x | None \<Rightarrow> JSOther True)
          else h (proto flatData) k)"

fun truthy :: "jsval \<Rightarrow> bool" where
  "truthy JSUndefined = False"
| "truthy (JSObject x) = True"
| "truthy (JSOther b) = b"

text \<open>
  \<^verbatim>\<open>flattenTree\<close> (lines 86-95) writes \<^verbatim>\<open>flatData[items.id] = items\<close> in pre-order; a
  later write to the same key replaces the earlier one.
\<close>

fun flattenTree_item :: "PNode \<Rightarrow> FlatData \<Rightarrow> FlatData"
  and flattenTree_array :: "PNode list \<Rightarrow> FlatData \<Rightarrow> FlatData"
where
  "flattenTree_item (PNode r i f None p) flatData = flatData_set i (PNode r i f None p) flatData"
| "flattenTree_item (PNode r i f (Some cs) p) flatData =
     flattenTree_array cs (flatData_set i (PNode r i f (Some cs) p) flatData)"
| "flattenTree_array [] flatData = flatData"
| "flattenTree_array (x # xs) flatData = flattenTree_array xs (flattenTree_item x flatData)"

definition flattenTree :: "PNode items \<Rightarrow> FlatData \<Rightarrow> FlatData" where
  "flattenTree its flatData =
     (case its of
        Array xs \<Rightarrow> flattenTree_array xs flatData
      | Single x \<Rightarrow> flattenTree_item x flatData)"

definition flatNodePointers :: "PNode items \<Rightarrow> FlatData" where
  "flatNodePointers pd = flattenTree pd emptyObject"

section \<open>Reading the processed tree\<close>

text \<open>
  All objects of a processed tree in pre-order, and the strict descendants of one of
  them. \<open>deref\<close> reads a reference: it finds the object with a given identity.
\<close>

fun all_nodes_item :: "PNode \<Rightarrow> PNode list"
  and all_nodes_array :: "PNode list \<Rightarrow> PNode list"
where
  "all_nodes_item (PNode r i f None p) = [PNode r i f None p]"
| "all_nodes_item (PNode r i f (Some cs) p) = PNode r i f (Some cs) p # all_nodes_array cs"
| "all_nodes_array [] = []"
| "all_nodes_array (x # xs) = all_nodes_item x @ all_nodes_array xs"

definition all_nodes :: "PNode items \<Rightarrow> PNode list" where
  "all_nodes its = (case its of Array xs \<Rightarrow> all_nodes_array xs | Single x \<Rightarrow> all_nodes_item x)"

definition descendants :: "PNode \<Rightarrow> PNode list" where
  "descendants n = (case children n of None \<Rightarrow> [] | Some cs \<Rightarrow> all_nodes_array cs)"

definition deref :: "PNode items \<Rightarrow> ref \<Rightarrow> PNode option" where
  "deref pd r = find (\<lambda>n. ref n = r) (all_nodes pd)"

section \<open>Selection and expansion state\<close>

text \<open>
  The component state is the three \<^verbatim>\<open>useState\<close> cells of \<^verbatim>\<open>TreeView\<close>; the trace
  records what the component calls. An event handler is a function from the state of the
  latest render to the state after the handler's updates: each handler below makes at most
  one update per cell, so the value a handler reads from its closure and the value the
  functional update \<^verbatim>\<open>prev\<close> receives are the same.
\<close>

definition initialState :: "Props \<Rightarrow> State" where
  "initialState props =
     \<lparr>selectedItemId = initialSelectedItemId props, expandedItems = [],
      draggedItem = None, trace = []\<rparr>"

text \<open>\<^verbatim>\<open>handleToggleExpand\<close> (lines 100-108).\<close>

definition handleToggleExpand :: "string \<Rightarrow> bool \<Rightarrow> State \<Rightarrow> State" where
  "handleToggleExpand itemId isExpanded st =
     st\<lparr>expandedItems :=
          (if isExpanded then expandedItems st @ [itemId]
           else filter (\<lambda>i. i \<noteq> itemId) (expandedItems st))\<rparr>"

text \<open>\<^verbatim>\<open>handleSelectChange\<close> (lines 177-185); \<^verbatim>\<open>item?.id\<close> is \<open>map_option id'\<close>.\<close>

definition handleSelectChange :: "Props \<Rightarrow> PNode option \<Rightarrow> State \<Rightarrow> State" where
  "handleSelectChange props item st =
     st\<lparr>selectedItemId := map_option id' item,
        trace := trace st @ (if onSelectChange props then [OnSelectChange item] else [])\<rparr>"


text \<open>
  \<^verbatim>\<open>syncExpandCollapseState\<close> of \<^verbatim>\<open>TreeNode\<close> (lines 364-370). \<^verbatim>\<open>isExpanded\<close> is
  \<^verbatim>\<open>expandedItems.includes(item.id)\<close> of the current render. The accordion's own
  \<^verbatim>\<open>value\<close> is a projection of \<^verbatim>\<open>expandedItems\<close> and is not part of the state here.
\<close>

definition syncExpandCollapseState :: "PNode \<Rightarrow> string list \<Rightarrow> State \<Rightarrow> State" where
  "syncExpandCollapseState item values st =
     (let isExpanded = id' item \<in> set (expandedItems st);
          newIsExpanded = id' item \<in> set values
      in if newIsExpanded \<noteq> isExpanded then handleToggleExpand (id' item) newIsExpanded st
         else st)"

section \<open>Keyboard navigation\<close>

text \<open>
  \<^verbatim>\<open>collectNodes\<close> (lines 117-131): the list \<^verbatim>\<open>allNodes\<close> receives the pushes in call
  order. Both branches push the item and descend into its children when they are present
  and the item's id is in \<^verbatim>\<open>expandedItems\<close>.
\<close>

fun collectNodes_item :: "string list \<Rightarrow> PNode \<Rightarrow> PNode list"
  and collectNodes_array :: "string list \<Rightarrow> PNode list \<Rightarrow> PNode list"
where
  "collectNodes_item ex (PNode r i f None p) = [PNode r i f None p]"
| "collectNodes_item ex (PNode r i f (Some cs) p) =
     PNode r i f (Some cs) p # (if i \<in> set ex then collectNodes_array ex cs else [])"
| "collectNodes_array ex [] = []"
| "collectNodes_array ex (x # xs) = collectNodes_item ex x @ collectNodes_array ex xs"

definition collectNodes :: "PNode items \<Rightarrow> string list \<Rightarrow> PNode list" where
  "collectNodes its ex =
     (case its of Array xs \<Rightarrow> collectNodes_array ex xs | Single x \<Rightarrow> collectNodes_item ex x)"

text \<open>\<^verbatim>\<open>Array.prototype.findIndex\<close>; \<open>None\<close> stands for the result \<^verbatim>\<open>-1\<close>.\<close>

fun findIndex :: "('a \<Rightarrow> bool) \<Rightarrow> 'a list \<Rightarrow> nat option" where
  "findIndex P [] = None"
| "findIndex P (x # xs) = (if P x then Some 0 else map_option Suc (findIndex P xs))"

definition preventDefault :: "State \<Rightarrow> State" where
  "preventDefault st = st\<lparr>trace := trace st @ [PreventDefault]\<rparr>"

text \<open>
  \<^verbatim>\<open>handleTreeKeyboardNavigation\<close> (lines 110-173). \<^verbatim>\<open>!selectedItemId\<close> holds for
  \<^verbatim>\<open>undefined\<close> and for the empty string; \<^verbatim>\<open>!currentNode\<close> holds for a value that is
  not truthy. A reference \<^verbatim>\<open>currentNode.parent\<close> is read with \<open>deref\<close>. The branches
  for ArrowRight and ArrowLeft read \<^verbatim>\<open>children\<close>, \<^verbatim>\<open>id\<close> and \<^verbatim>\<open>parent\<close> of
  \<^verbatim>\<open>currentNode\<close>; on a truthy value that is not a processed object these reads give
  \<^verbatim>\<open>undefined\<close> and both branches do nothing (\<open>currentNode_is_object\<close> below shows that
  behind the index guard \<^verbatim>\<open>currentNode\<close> is always a processed object).
\<close>

definition handleTreeKeyboardNavigation ::
  "host \<Rightarrow> Props \<Rightarrow> PNode items \<Rightarrow> string \<Rightarrow> State \<Rightarrow> State" where
  "handleTreeKeyboardNavigation h props pd key st =
     (case selectedItemId st of
        None \<Rightarrow> st
      | Some sid \<Rightarrow>
          if sid = [] then st
          else
            (let currentNode = flatData_get h (flatNodePointers pd) sid in
             if \<not> truthy currentNode then st
             else
               (let allNodes = collectNodes pd (expandedItems st) in
                case findIndex (\<lambda>node. id' node = sid) allNodes of
                  None \<Rightarrow> st
                | Some currentIndex \<Rightarrow>
                    if key = ''ArrowDown'' then
                      preventDefault
                        (if int currentIndex < int (length allNodes) - 1
                         then handleSelectChange props (Some (allNodes ! (currentIndex + 1))) st
                         else st)
                    else if key = ''ArrowUp'' then
                      preventDefault
                        (if currentIndex > 0
                         then handleSelectChange props (Some (allNodes ! (currentIndex - 1))) st
                         else st)
                    else if key = ''ArrowRight'' then
                      preventDefault
                        (case currentNode of
                           JSObject node \<Rightarrow>
                             (case children node of
                                None \<Rightarrow> st
                              | Some cs \<Rightarrow>
                                  if length cs > 0 then
                                    (if id' node \<notin> set (expandedItems st)
                                     then handleToggleExpand (id' node) True st
                                     else handleSelectChange props (Some (cs ! 0)) st)
                                  else st)
                         | _ \<Rightarrow> st)
                    else if key = ''ArrowLeft'' then
                      preventDefault
                        (case currentNode of
                           JSObject node \<Rightarrow>
                             if id' node \<in> set (expandedItems st)
                             then handleToggleExpand (id' node) False st
                             else
                               (case parent node of
                                  None \<Rightarrow> st
                                | Some r \<Rightarrow> handleSelectChange props (deref pd r) st)
                         | _ \<Rightarrow> st)
                    else st)))"

section \<open>Drag and drop\<close>

text \<open>\<^verbatim>\<open>handleDragStart\<close> (lines 187-189) and \<^verbatim>\<open>handleDrop\<close> (lines 191-199).\<close>

definition handleDragStart :: "PNode \<Rightarrow> State \<Rightarrow> State" where
  "handleDragStart item st = st\<lparr>draggedItem := Some item\<rparr>"

definition handleDrop :: "Props \<Rightarrow> PNode \<Rightarrow> State \<Rightarrow> State" where
  "handleDrop props targetItem st =
     (let st1 =
        (case draggedItem st of
           None \<Rightarrow> st
         | Some src \<Rightarrow>
             if onDocumentDrag props \<and> id' src \<noteq> id' targetItem
             then st\<lparr>trace := trace st @ [OnDocumentDrag src targetItem]\<rparr>
             else st)
      in st1\<lparr>draggedItem := None\<rparr>)"

section \<open>The mount-time walk\<close>

text \<open>
  \<^verbatim>\<open>walkTreeItems\<close> (lines 205-223). The list \<^verbatim>\<open>ids\<close> is threaded through the calls;
  the array branch is the \<^verbatim>\<open>for\<close> loop, which pushes \<^verbatim>\<open>items[i].id\<close> and returns at
  the first element whose walk succeeds.
\<close>

fun walkTreeItems_item :: "PNode \<Rightarrow> string \<Rightarrow> string list \<Rightarrow> bool \<times> string list"
  and walkTreeItems_array :: "PNode list \<Rightarrow> string \<Rightarrow> string list \<Rightarrow> bool \<times> string list"
where
  "walkTreeItems_item (PNode r i f None p) targetId ids =
     (if i = targetId then (True, ids) else (False, ids))"
| "walkTreeItems_item (PNode r i f (Some cs) p) targetId ids =
     (if i = targetId then (True, ids)
      else
        (case walkTreeItems_array cs targetId ids of
           (found, ids1) \<Rightarrow> if found then (True, ids1 @ [i]) else (False, ids1)))"
| "walkTreeItems_array [] targetId ids = (False, ids)"
| "walkTreeItems_array (x # xs) targetId ids =
     (case walkTreeItems_item x targetId ids of
        (found, ids1) \<Rightarrow>
          if found then (True, ids1 @ [id' x]) else walkTreeItems_array xs targetId ids1)"

definition walkTreeItems :: "PNode items \<Rightarrow> string \<Rightarrow> string list \<Rightarrow> bool \<times> string list" where
  "walkTreeItems its targetId ids =
     (case its of
        Array xs \<Rightarrow> walkTreeItems_array xs targetId ids
      | Single x \<Rightarrow> walkTreeItems_item x targetId ids)"

text \<open>
  The effect of lines 201-229. It returns at once when \<^verbatim>\<open>initialSelectedItemId\<close> is
  falsy (absent or empty) or \<^verbatim>\<open>expandAll\<close> is true.
\<close>

definition mountEffect :: "Props \<Rightarrow> PNode items \<Rightarrow> State \<Rightarrow> State" where
  "mountEffect props pd st =
     (case initialSelectedItemId props of
        None \<Rightarrow> st
      | Some targetId \<Rightarrow>
          if targetId = [] \<or> expandAll props = Some True then st
          else
            (let ids = snd (walkTreeItems pd targetId [])
             in if length ids > 0 then st\<lparr>expandedItems := ids\<rparr> else st))"

section \<open>The builder on a store of objects\<close>

text \<open>
  The caller's items, the arrays that hold their children and the objects that the builder
  makes are JavaScript objects. To say what a run of \<^verbatim>\<open>processItems\<close> (lines 60-79) does to
  the objects that exist before it, the builder is run here on an explicit store: \<open>objects\<close>
  holds the item objects and \<open>arrays\<close> the arrays of item addresses, each by its address
  (the position in the list). The \<^verbatim>\<open>children\<close> of an object is the address of an array, or
  absent; \<^verbatim>\<open>parent\<close> is the address of an object, or absent. An allocation appends to the
  store.

  \<open>processItems_obj\<close> is the body that both branches of \<^verbatim>\<open>processItems\<close> apply to one item:
  the spread \<^verbatim>\<open>{ ...item, parent }\<close> allocates a copy of the item with its \<^verbatim>\<open>parent\<close> set (the
  copy still refers to the item's own array of children); when \<^verbatim>\<open>item.children\<close> is present,
  the recursive call runs on that array with the copy as parent, and the assignment
  \<^verbatim>\<open>newItem.children = ...\<close> writes the address of the array it returns into the copy. It
  returns the address of the copy. \<open>processItems_map\<close> is \<^verbatim>\<open>items.map\<close>, from left to right.
  \<open>processItems_store\<close> is the call \<^verbatim>\<open>processItems(data)\<close>, on an array (whose result array is
  allocated when \<^verbatim>\<open>map\<close> returns) or on a single item, with \<^verbatim>\<open>parent\<close> absent.

  The first argument bounds the nesting of the calls. The result is \<open>None\<close> when that bound
  is used up, or when an address is not in the store.
\<close>

record JSItem =
  o_id :: string
  o_attrs :: ItemFields
  o_children :: "nat option"
  o_parent :: "nat option"

record Store =
  objects :: "JSItem list"
  arrays :: "nat list list"

datatype dataref = ItemRef nat | ArrayRef nat

fun processItems_obj :: "nat \<Rightarrow> nat \<Rightarrow> nat option \<Rightarrow> Store \<Rightarrow> (nat \<times> Store) option"
  and processItems_map :: "nat \<Rightarrow> nat list \<Rightarrow> nat option \<Rightarrow> Store \<Rightarrow> (nat list \<times> Store) option"
where
  "processItems_obj 0 a par s = None"
| "processItems_obj (Suc fuel) a par s =
     (if a < length (objects s) then
        (let item = objects s ! a;
             newItem = length (objects s);
             s1 = s\<lparr>objects := objects s @ [item\<lparr>o_parent := par\<rparr>]\<rparr>
         in case o_children item of
              None \<Rightarrow> Some (newItem, s1)
            | Some arr \<Rightarrow>
                if arr < length (arrays s1) then
                  (case processItems_map fuel (arrays s1 ! arr) (Some newItem) s1 of
                     None \<Rightarrow> None
                   | Some (ns, s2) \<Rightarrow>
                       Some (newItem,
                         s2\<lparr>arrays := arrays s2 @ [ns],
                            objects := (objects s2)
                              [newItem := (objects s2 ! newItem)\<lparr>o_children := Some (length (arrays s2))\<rparr>]\<rparr>))
                else None)
      else None)"
| "processItems_map fuel [] par s = Some ([], s)"
| "processItems_map fuel (a # as) par s =
     (case processItems_obj fuel a par s of
        None \<Rightarrow> None
      | Some (n, s1) \<Rightarrow>
          (case processItems_map fuel as par s1 of
             None \<Rightarrow> None
           | Some (ns, s2) \<Rightarrow> Some (n # ns, s2)))"

definition processItems_store :: "nat \<Rightarrow> dataref \<Rightarrow> Store \<Rightarrow> (dataref \<times> Store) option" where
  "processItems_store fuel r s =
     (case r of
        ArrayRef arr \<Rightarrow>
          if arr < length (arrays s) then
            (case processItems_map fuel (arrays s ! arr) None s of
               None \<Rightarrow> None
             | Some (ns, s') \<Rightarrow> Some (ArrayRef (length (arrays s')), s'\<lparr>arrays := arrays s' @ [ns]\<rparr>))
          else None
      | ItemRef a \<Rightarrow>
          (case processItems_obj fuel a None s of
             None \<Rightarrow> None
           | Some (n, s') \<Rightarrow> Some (ItemRef n, s')))"

section \<open>Notions used to state the properties\<close>

text \<open>
  The caller's item that a processed object copies: the object without its identity and
  its back-reference.
\<close>

fun erase_item :: "PNode \<Rightarrow> TreeDataItem"
  and erase_array :: "PNode list \<Rightarrow> TreeDataItem list"
where
  "erase_item (PNode r i f None p) = TreeDataItem i f None"
| "erase_item (PNode r i f (Some cs) p) = TreeDataItem i f (Some (erase_array cs))"
| "erase_array [] = []"
| "erase_array (x # xs) = erase_item x # erase_array xs"

definition erase :: "PNode items \<Rightarrow> TreeDataItem items" where
  "erase its = (case its of Array xs \<Rightarrow> Array (erase_array xs) | Single x \<Rightarrow> Single (erase_item x))"

text \<open>The ids that occur in the caller's data, in pre-order.\<close>

fun input_ids_item :: "TreeDataItem \<Rightarrow> string list"
  and input_ids_array :: "TreeDataItem list \<Rightarrow> string list"
where
  "input_ids_item (TreeDataItem i f None) = [i]"
| "input_ids_item (TreeDataItem i f (Some cs)) = i # input_ids_array cs"
| "input_ids_array [] = []"
| "input_ids_array (x # xs) = input_ids_item x @ input_ids_array xs"

definition input_ids :: "TreeDataItem items \<Rightarrow> string list" where
  "input_ids its = (case its of Array xs \<Rightarrow> input_ids_array xs | Single x \<Rightarrow> input_ids_item x)"

text \<open>
  The processed object that \<^verbatim>\<open>flatData\<close> holds for a key: the own property, or, for the
  key \<^verbatim>\<open>__proto__\<close>, the prototype when it is a processed object.
\<close>

definition entry :: "FlatData \<Rightarrow> (string \<rightharpoonup> PNode)" where
  "entry flatData k = (if k = ''__proto__'' then proto flatData else own flatData k)"

definition roots :: "'a items \<Rightarrow> 'a list" where
  "roots its = (case its of Array xs \<Rightarrow> xs | Single x \<Rightarrow> [x])"

text \<open>
  \<open>linked p n\<close>: the back-reference of \<open>n\<close> is \<open>p\<close>, and below \<open>n\<close> every child refers
  to the object it is a child of.
\<close>

fun linked_item :: "ref option \<Rightarrow> PNode \<Rightarrow> bool"
  and linked_array :: "ref option \<Rightarrow> PNode list \<Rightarrow> bool"
where
  "linked_item q (PNode r i f None p) = (p = q)"
| "linked_item q (PNode r i f (Some cs) p) = (p = q \<and> linked_array (Some r) cs)"
| "linked_array q [] = True"
| "linked_array q (x # xs) = (linked_item q x \<and> linked_array q xs)"

text \<open>
  The ids of the proper ancestors of the objects with id \<open>t\<close>: the ids of the objects
  that have an object with id \<open>t\<close> among their strict descendants.
\<close>

definition ancestor_ids_in :: "PNode list \<Rightarrow> string \<Rightarrow> string list" where
  "ancestor_ids_in ns t = map id' (filter (\<lambda>m. t \<in> set (map id' (descendants m))) ns)"

definition ancestor_ids :: "PNode items \<Rightarrow> string \<Rightarrow> string list" where
  "ancestor_ids pd t = ancestor_ids_in (all_nodes pd) t"

text \<open>
  \<open>visible_in ns ex n\<close>: every object of \<open>ns\<close> that has \<open>n\<close> among its strict
  descendants has its id in \<open>ex\<close>, that is, every proper ancestor of \<open>n\<close> is expanded.
\<close>

definition visible_in :: "PNode list \<Rightarrow> string list \<Rightarrow> PNode \<Rightarrow> bool" where
  "visible_in ns ex n = list_all (\<lambda>a. n \<in> set (descendants a) \<longrightarrow> id' a \<in> set ex) ns"

text \<open>The selection after each key of a sequence of key events.\<close>

fun visits ::
  "host \<Rightarrow> Props \<Rightarrow> PNode items \<Rightarrow> string list \<Rightarrow> State \<Rightarrow> string option list" where
  "visits h props pd [] st = []"
| "visits h props pd (k # ks) st =
     (let st' = handleTreeKeyboardNavigation h props pd k st
      in selectedItemId st' # visits h props pd ks st')"

text \<open>
  The parent links by id: every object's id with the id of the object its back-reference
  refers to.
\<close>

definition parentLinks :: "PNode items \<Rightarrow> (string \<times> string option) list" where
  "parentLinks pd =
     map (\<lambda>n. (id' n, case parent n of None \<Rightarrow> None | Some r \<Rightarrow> map_option id' (deref pd r)))
       (all_nodes pd)"

text \<open>Renaming the object identities of a processed tree by an offset.\<close>

fun shift_item :: "nat \<Rightarrow> PNode \<Rightarrow> PNode"
  and shift_array :: "nat \<Rightarrow> PNode list \<Rightarrow> PNode list"
where
  "shift_item k (PNode r i f None p) = PNode (r + k) i f None (map_option (\<lambda>q. q + k) p)"
| "shift_item k (PNode r i f (Some cs) p) =
     PNode (r + k) i f (Some (shift_array k cs)) (map_option (\<lambda>q. q + k) p)"
| "shift_array k [] = []"
| "shift_array k (x # xs) = shift_item k x # shift_array k xs"

definition shift :: "nat \<Rightarrow> PNode items \<Rightarrow> PNode items" where
  "shift k its =
     (case its of Array xs \<Rightarrow> Array (shift_array k xs) | Single x \<Rightarrow> Single (shift_item k x))"

text \<open>
  What a store holds. \<open>repr_item s a x\<close>: the object at address \<open>a\<close> of the store \<open>s\<close>, with
  the objects below it, is the caller's item \<open>x\<close> (its \<^verbatim>\<open>parent\<close> property, if it has one, is
  not read). \<open>out_item s p\<close>: the store holds the processed object \<open>p\<close> at the address that is
  its identity, with its id, fields and parent reference, and the array of its children
  holds the identities of \<open>p\<close>'s children in order, which the store holds likewise.
\<close>

fun repr_item :: "Store \<Rightarrow> nat \<Rightarrow> TreeDataItem \<Rightarrow> bool"
  and repr_array :: "Store \<Rightarrow> nat list \<Rightarrow> TreeDataItem list \<Rightarrow> bool"
where
  "repr_item s a (TreeDataItem i f None) =
     (a < length (objects s) \<and> o_id (objects s ! a) = i \<and> o_attrs (objects s ! a) = f
      \<and> o_children (objects s ! a) = None)"
| "repr_item s a (TreeDataItem i f (Some cs)) =
     (a < length (objects s) \<and> o_id (objects s ! a) = i \<and> o_attrs (objects s ! a) = f
      \<and> (case o_children (objects s ! a) of
            None \<Rightarrow> False
          | Some arr \<Rightarrow> arr < length (arrays s) \<and> repr_array s (arrays s ! arr) cs))"
| "repr_array s [] [] = True"
| "repr_array s (a # as) (c # cs) = (repr_item s a c \<and> repr_array s as cs)"
| "repr_array s [] (c # cs) = False"
| "repr_array s (a # as) [] = False"

definition repr_data :: "Store \<Rightarrow> dataref \<Rightarrow> TreeDataItem items \<Rightarrow> bool" where
  "repr_data s r d =
     (case (r, d) of
        (ItemRef a, Single x) \<Rightarrow> repr_item s a x
      | (ArrayRef arr, Array xs) \<Rightarrow> arr < length (arrays s) \<and> repr_array s (arrays s ! arr) xs
      | _ \<Rightarrow> False)"

fun out_item :: "Store \<Rightarrow> PNode \<Rightarrow> bool"
  and out_array :: "Store \<Rightarrow> PNode list \<Rightarrow> bool"
where
  "out_item s (PNode r i f None p) =
     (r < length (objects s)
      \<and> objects s ! r = \<lparr>o_id = i, o_attrs = f, o_children = None, o_parent = p\<rparr>)"
| "out_item s (PNode r i f (Some cs) p) =
     (r < length (objects s) \<and> o_id (objects s ! r) = i \<and> o_attrs (objects s ! r) = f
      \<and> o_parent (objects s ! r) = p
      \<and> (case o_children (objects s ! r) of
            None \<Rightarrow> False
          | Some arr \<Rightarrow> arr < length (arrays s) \<and> arrays s ! arr = map ref cs)
      \<and> out_array s cs)"
| "out_array s [] = True"
| "out_array s (c # cs) = (out_item s c \<and> out_array s cs)"

definition out_data :: "Store \<Rightarrow> dataref \<Rightarrow> PNode items \<Rightarrow> bool" where
  "out_data s r pd =
     (case (r, pd) of
        (ItemRef a, Single x) \<Rightarrow> a = ref x \<and> out_item s x
      | (ArrayRef arr, Array xs) \<Rightarrow>
          arr < length (arrays s) \<and> arrays s ! arr = map ref xs \<and> out_array s xs
      | _ \<Rightarrow> False)"

text \<open>
  \<open>extends s s'\<close>: every object and every array of \<open>s\<close> is in \<open>s'\<close> at the same address and
  with the same contents; \<open>s'\<close> may hold more.
\<close>

definition extends :: "Store \<Rightarrow> Store \<Rightarrow> bool" where
  "extends s s' =
     (length (objects s) \<le> length (objects s') \<and> take (length (objects s)) (objects s') = objects s
      \<and> length (arrays s) \<le> length (arrays s') \<and> take (length (arrays s)) (arrays s') = arrays s)"

text \<open>The nesting depth of caller data: the bound that a run of the builder needs.\<close>

fun depth_item :: "TreeDataItem \<Rightarrow> nat"
  and depth_array :: "TreeDataItem list \<Rightarrow> nat"
where
  "depth_item (TreeDataItem i f None) = 1"
| "depth_item (TreeDataItem i f (Some cs)) = Suc (depth_array cs)"
| "depth_array [] = 0"
| "depth_array (x # xs) = max (depth_item x) (depth_array xs)"

definition depth :: "TreeDataItem items \<Rightarrow> nat" where
  "depth d = (case d of Array xs \<Rightarrow> depth_array xs | Single x \<Rightarrow> depth_item x)"


section \<open>Example data\<close>

definition leaf :: "string \<Rightarrow> TreeDataItem" where
  "leaf i =
     TreeDataItem i \<lparr>name = i, onClick = False, draggable = None, droppable = None\<rparr> None"

definition branch :: "string \<Rightarrow> TreeDataItem list \<Rightarrow> TreeDataItem" where
  "branch i cs =
     TreeDataItem i \<lparr>name = i, onClick = False, draggable = None, droppable = None\<rparr> (Some cs)"

text \<open>The tree \<^verbatim>\<open>A{B{D,E},C}\<close>.\<close>

definition exampleTree :: TreeDataItem where
  "exampleTree = branch ''A'' [branch ''B'' [leaf ''D'', leaf ''E''], leaf ''C'']"

text \<open>The \<^verbatim>\<open>data\<close> of \<^verbatim>\<open>App.tsx\<close> (the names are the ids here).\<close>

definition appData :: "TreeDataItem items" where
  "appData =
     Array
       [branch ''1'' [branch ''2'' [leaf ''3'', leaf ''4''], leaf ''5''],
        branch ''6'' [leaf ''7'', branch ''8'' [leaf ''9'', leaf ''10'']]]"

text \<open>Data with unique ids in which one id is \<^verbatim>\<open>__proto__\<close>.\<close>

definition protoData :: "TreeDataItem items" where
  "protoData = Array [leaf ''__proto__'', leaf ''Y'']"

definition exampleProps :: "TreeDataItem items \<Rightarrow> string option \<Rightarrow> Props" where
  "exampleProps d sel =
     \<lparr>data = d, initialSelectedItemId = sel, onSelectChange = True, expandAll = None,
      onDocumentDrag = True\<rparr>"

text \<open>
  A host for the examples. \<^verbatim>\<open>Object.prototype\<close> holds functions under its standard
  names; a processed object that has become the prototype of \<^verbatim>\<open>flatData\<close> contributes
  its own properties first.
\<close>

definition objectPrototype :: "string \<Rightarrow> jsval" where
  "objectPrototype k =
     (if k \<in> set [''constructor'', ''__defineGetter__'', ''__defineSetter__'',
          ''hasOwnProperty'', ''__lookupGetter__'', ''__lookupSetter__'', ''isPrototypeOf'',
          ''propertyIsEnumerable'', ''toString'', ''valueOf'', ''toLocaleString'']
      then JSOther True else JSUndefined)"

definition standardHost :: "PNode items \<Rightarrow> host" where
  "standardHost pd p k =
     (case p of
        None \<Rightarrow> objectPrototype k
      | Some x \<Rightarrow>
          if k = ''id'' then JSOther (id' x \<noteq> [])
          else if k = ''name'' then JSOther (name (attrs x) \<noteq> [])
          else if k = ''children'' \<and> children x \<noteq> None then JSOther True
          else if k = ''parent'' then
            (case parent x of
               None \<Rightarrow> JSUndefined
             | Some r \<Rightarrow> (case deref pd r of None \<Rightarrow> JSUndefined | Some q \<Rightarrow> JSObject q))
          else if k = ''onClick'' \<and> onClick (attrs x) then JSOther True
          else if k = ''draggable'' \<and> draggable (attrs x) \<noteq> None
            then JSOther (the (draggable (attrs x)))
          else if k = ''droppable'' \<and> droppable (attrs x) \<noteq> None
            then JSOther (the (droppable (attrs x)))
          else objectPrototype k)"

definition examplePd :: "PNode items" where
  "examplePd = processedData (Single exampleTree) 0"

definition exampleHost :: host where
  "exampleHost = standardHost examplePd"

definition exampleState :: "string option \<Rightarrow> string list \<Rightarrow> State" where
  "exampleState sel ex =
     \<lparr>selectedItemId = sel, expandedItems = ex, draggedItem = None, trace = []\<rparr>"

text \<open>A branch whose \<^verbatim>\<open>children\<close> array is present and empty.\<close>

definition emptyBranchPd :: "PNode items" where
  "emptyBranchPd = processedData (Single (branch ''A'' [])) 0"

definition nodeD :: PNode where
  "nodeD =
     PNode 2 ''D'' \<lparr>name = ''D'', onClick = True, draggable = Some True, droppable = None\<rparr>
       None (Some 1)"

definition nodeE :: PNode where
  "nodeE =
     PNode 3 ''E'' \<lparr>name = ''E'', onClick = False, draggable = None, droppable = None\<rparr>
       None (Some 1)"

text \<open>Props with \<^verbatim>\<open>expandAll\<close> set, for the tree \<^verbatim>\<open>A{B{D,E},C}\<close>.\<close>

definition expandAllProps :: "string option \<Rightarrow> Props" where
  "expandAllProps sel =
     \<lparr>data = Single exampleTree, initialSelectedItemId = sel, onSelectChange = True,
      expandAll = Some True, onDocumentDrag = True\<rparr>"

text \<open>
  A store that holds the tree \<^verbatim>\<open>A{B{D,E},C}\<close>: \<open>A\<close> at address 0 with the children array
  \<open>[B, C]\<close>, \<open>B\<close> at address 1 with the children array \<open>[D, E]\<close>.
\<close>

definition inputObject :: "string \<Rightarrow> nat option \<Rightarrow> JSItem" where
  "inputObject i cs =
     \<lparr>o_id = i, o_attrs = \<lparr>name = i, onClick = False, draggable = None, droppable = None\<rparr>,
      o_children = cs, o_parent = None\<rparr>"

definition exampleStore :: Store where
  "exampleStore =
     \<lparr>objects = [inputObject ''A'' (Some 0), inputObject ''B'' (Some 1), inputObject ''D'' None,
                 inputObject ''E'' None, inputObject ''C'' None],
      arrays = [[1, 4], [2, 3]]\<rparr>"



section \<open>Auxiliary lemmas\<close>

subsection \<open>Searching a list\<close>

lemma findIndex_None: "findIndex P xs = None \<longleftrightarrow> (\<forall>x\<in>set xs. \<not> P x)"
  by (induction xs) auto

lemma findIndex_Some:
  "findIndex P xs = Some i \<longleftrightarrow> i < length xs \<and> P (xs ! i) \<and> (\<forall>j<i. \<not> P (xs ! j))"
proof (induction xs arbitrary: i)
  case Nil
  then show ?case by simp
next
  case (Cons x xs)
  show ?case
  proof (cases "P x")
    case True
    then show ?thesis by (cases i) auto
  next
    case False
    show ?thesis
    proof (cases i)
      case 0
      with False show ?thesis by auto
    next
      case (Suc k)
      have "(\<forall>j<Suc k. \<not> P ((x # xs) ! j)) \<longleftrightarrow> (\<forall>j<k. \<not> P (xs ! j))"
        using False by (auto simp: less_Suc_eq_0_disj)
      with False Suc Cons.IH [of k] show ?thesis by auto
    qed
  qed
qed

lemma findIndex_map: "findIndex (\<lambda>n. f n = s) xs = findIndex (\<lambda>x. x = s) (map f xs)"
  by (induction xs) simp_all

lemma find_distinct:
  "distinct (map f xs) \<Longrightarrow> x \<in> set xs \<Longrightarrow> find (\<lambda>y. f y = f x) xs = Some x"
  by (induction xs) (auto simp: image_iff)

subsection \<open>The flat index and the visible list\<close>

lemma PNode_cases:
  obtains (Leaf) r i f p where "n = PNode r i f None p"
  | (Branch) r i f cs p where "n = PNode r i f (Some cs) p"
proof (cases n)
  case (PNode r i f cs p)
  then show ?thesis by (cases cs) (auto intro: Leaf Branch)
qed

lemma all_nodes_item_self: "n \<in> set (all_nodes_item n)"
  by (cases n rule: PNode_cases) auto

lemma all_nodes_array_mem: "n \<in> set ns \<Longrightarrow> n \<in> set (all_nodes_array ns)"
  by (induction ns) (auto simp: all_nodes_item_self)

lemma entry_set [simp]: "entry (flatData_set k v fd) = (entry fd)(k \<mapsto> v)"
  by (rule ext) (simp add: entry_def flatData_set_def)

lemma own_set: "own (flatData_set k v fd) ''__proto__'' = own fd ''__proto__''"
  by (simp add: flatData_set_def)

lemma flatten_own:
  "own (flattenTree_item n fd) ''__proto__'' = own fd ''__proto__''"
  "own (flattenTree_array ns fd) ''__proto__'' = own fd ''__proto__''"
  by (induction n and ns arbitrary: fd and fd rule: all_nodes_item_all_nodes_array.induct)
    (simp_all add: own_set)

lemma flatten_dom:
  "dom (entry (flattenTree_item n fd)) = dom (entry fd) \<union> id' ` set (all_nodes_item n)"
  "dom (entry (flattenTree_array ns fd)) = dom (entry fd) \<union> id' ` set (all_nodes_array ns)"
  by (induction n and ns arbitrary: fd and fd rule: all_nodes_item_all_nodes_array.induct) auto

lemma flatten_Some:
  "entry (flattenTree_item n fd) k = Some x \<Longrightarrow>
     entry fd k = Some x \<or> (x \<in> set (all_nodes_item n) \<and> id' x = k)"
  "entry (flattenTree_array ns fd) k = Some x \<Longrightarrow>
     entry fd k = Some x \<or> (x \<in> set (all_nodes_array ns) \<and> id' x = k)"
  by (induction n and ns arbitrary: fd and fd rule: all_nodes_item_all_nodes_array.induct)
    (fastforce split: if_splits)+

lemma flatten_other:
  "k \<notin> id' ` set (all_nodes_item n) \<Longrightarrow> entry (flattenTree_item n fd) k = entry fd k"
  "k \<notin> id' ` set (all_nodes_array ns) \<Longrightarrow> entry (flattenTree_array ns fd) k = entry fd k"
  by (induction n and ns arbitrary: fd and fd rule: all_nodes_item_all_nodes_array.induct)
    (simp_all add: image_Un)

lemma flatten_lookup:
  "distinct (map id' (all_nodes_item n)) \<Longrightarrow> x \<in> set (all_nodes_item n) \<Longrightarrow>
     entry (flattenTree_item n fd) (id' x) = Some x"
  "distinct (map id' (all_nodes_array ns)) \<Longrightarrow> x \<in> set (all_nodes_array ns) \<Longrightarrow>
     entry (flattenTree_array ns fd) (id' x) = Some x"
proof (induction n and ns arbitrary: fd and fd rule: all_nodes_item_all_nodes_array.induct)
  case (1 r i f p)
  then show ?case by simp
next
  case (2 r i f cs p)
  show ?case
  proof (cases "x \<in> set (all_nodes_array cs)")
    case True
    with 2 show ?thesis by simp
  next
    case False
    with "2.prems" have x: "x = PNode r i f (Some cs) p" by simp
    have "i \<notin> id' ` set (all_nodes_array cs)" using "2.prems" by simp
    then show ?thesis using x by (simp add: flatten_other)
  qed
next
  case 3
  then show ?case by simp
next
  case (4 y ys)
  show ?case
  proof (cases "x \<in> set (all_nodes_array ys)")
    case True
    with 4 show ?thesis by simp
  next
    case False
    with "4.prems" have x: "x \<in> set (all_nodes_item y)" by simp
    have "id' x \<notin> id' ` set (all_nodes_array ys)" using "4.prems" x by auto
    then show ?thesis using 4 x by (simp add: flatten_other)
  qed
qed

lemma entry_empty: "entry emptyObject = Map.empty"
  by (rule ext) (simp add: entry_def emptyObject_def)

lemma flat_own_proto: "own (flatNodePointers pd) ''__proto__'' = None"
  by (simp add: flatNodePointers_def flattenTree_def flatten_own emptyObject_def split: items.split)

lemma flat_dom: "dom (entry (flatNodePointers pd)) = id' ` set (all_nodes pd)"
  by (simp add: flatNodePointers_def flattenTree_def all_nodes_def flatten_dom entry_empty
      split: items.split)

lemma flat_Some:
  "entry (flatNodePointers pd) k = Some n \<Longrightarrow> n \<in> set (all_nodes pd) \<and> id' n = k"
  by (auto simp: flatNodePointers_def flattenTree_def all_nodes_def entry_empty
      dest: flatten_Some split: items.splits)

lemma flat_lookup:
  "distinct (map id' (all_nodes pd)) \<Longrightarrow> n \<in> set (all_nodes pd) \<Longrightarrow>
     entry (flatNodePointers pd) (id' n) = Some n"
  by (auto simp: flatNodePointers_def flattenTree_def all_nodes_def flatten_lookup
      split: items.splits)

lemma flat_own_dom: "dom (own (flatNodePointers pd)) = id' ` set (all_nodes pd) - {''__proto__''}"
proof -
  have "dom (own (flatNodePointers pd)) = dom (entry (flatNodePointers pd)) - {''__proto__''}"
    using flat_own_proto [of pd] by (auto simp: entry_def dom_def)
  then show ?thesis by (simp add: flat_dom)
qed

text \<open>A read of a key that \<open>entry\<close> holds gives that processed object, on every host.\<close>

lemma get_entry:
  assumes "entry (flatNodePointers pd) k = Some n"
  shows "flatData_get h (flatNodePointers pd) k = JSObject n"
  using assms flat_own_proto [of pd]
  by (auto simp: flatData_get_def entry_def split: option.split if_splits)

lemma get_id:
  assumes "k \<in> id' ` set (all_nodes pd)"
  shows "\<exists>n. flatData_get h (flatNodePointers pd) k = JSObject n \<and> n \<in> set (all_nodes pd)
    \<and> id' n = k \<and> entry (flatNodePointers pd) k = Some n"
proof -
  from assms have "k \<in> dom (entry (flatNodePointers pd))" by (simp add: flat_dom)
  then obtain n where n: "entry (flatNodePointers pd) k = Some n" by auto
  with get_entry [OF n, of h] flat_Some [OF n] show ?thesis by simp
qed

lemma collect_subset:
  "set (collectNodes_item ex n) \<subseteq> set (all_nodes_item n)"
  "set (collectNodes_array ex ns) \<subseteq> set (all_nodes_array ns)"
  by (induction ex n and ex ns rule: collectNodes_item_collectNodes_array.induct) auto

lemma collectNodes_subset: "set (collectNodes pd ex) \<subseteq> set (all_nodes pd)"
  by (auto simp: collectNodes_def all_nodes_def dest: collect_subset [THEN subsetD] split: items.split)

text \<open>
  The selected id of a visible node is always read as a processed object with that id:
  behind the guard \<^verbatim>\<open>currentIndex === -1\<close> \<^verbatim>\<open>currentNode\<close> is a processed object.
\<close>

lemma currentNode_is_object:
  assumes "s \<in> id' ` set (collectNodes pd ex)"
  shows "\<exists>n. flatData_get h (flatNodePointers pd) s = JSObject n \<and> n \<in> set (all_nodes pd)
    \<and> id' n = s"
proof -
  from assms have "s \<in> id' ` set (all_nodes pd)"
    using collectNodes_subset [of pd ex] by auto
  from get_id [OF this, of h] show ?thesis by blast
qed


subsection \<open>The builder\<close>

lemma process_item_Some:
  "processItems_item (TreeDataItem i f (Some cs)) par c =
     (PNode c i f (Some (fst (processItems_array cs (Some c) (Suc c)))) par,
      snd (processItems_array cs (Some c) (Suc c)))"
  by (simp add: case_prod_beta)

lemma process_array_Cons:
  "processItems_array (x # xs) par c =
     (fst (processItems_item x par c) #
        fst (processItems_array xs par (snd (processItems_item x par c))),
      snd (processItems_array xs par (snd (processItems_item x par c))))"
  by (simp add: case_prod_beta)

lemmas process_simps =
  processItems_item.simps(1) process_item_Some processItems_array.simps(1) process_array_Cons

lemma process_erase:
  "erase_item (fst (processItems_item x par c)) = x"
  "erase_array (fst (processItems_array xs par c)) = xs"
proof (induction x par c and xs par c rule: processItems_item_processItems_array.induct)
  case (4 x xs par c)
  from 4(1) 4(2) [OF prod.collapse] show ?case
    by (simp only: process_simps fst_conv erase_array.simps)
qed (simp_all only: process_simps fst_conv erase_item.simps erase_array.simps)

lemma process_ids:
  "map id' (all_nodes_item (fst (processItems_item x par c))) = input_ids_item x"
  "map id' (all_nodes_array (fst (processItems_array xs par c))) = input_ids_array xs"
proof (induction x par c and xs par c rule: processItems_item_processItems_array.induct)
  case (4 x xs par c)
  from 4(1) 4(2) [OF prod.collapse] show ?case
    by (simp only: process_simps fst_conv all_nodes_array.simps map_append input_ids_array.simps)
qed (simp_all only: process_simps fst_conv all_nodes_item.simps all_nodes_array.simps
    input_ids_item.simps input_ids_array.simps list.map PNode.sel)

lemma process_refs:
  "map ref (all_nodes_item (fst (processItems_item x par c))) = [c ..< snd (processItems_item x par c)]
     \<and> c < snd (processItems_item x par c)"
  "map ref (all_nodes_array (fst (processItems_array xs par c))) = [c ..< snd (processItems_array xs par c)]
     \<and> c \<le> snd (processItems_array xs par c)"
proof (induction x par c and xs par c rule: processItems_item_processItems_array.induct)
  case (1 i f par c)
  then show ?case by simp
next
  case (2 i f cs par c)
  then show ?case by (simp only: process_simps) (simp add: upt_conv_Cons)
next
  case (3 par c)
  then show ?case by simp
next
  case (4 x xs par c)
  let ?c1 = "snd (processItems_item x par c)"
  let ?c2 = "snd (processItems_array xs par ?c1)"
  from 4(1) 4(2) [OF prod.collapse]
  have a: "map ref (all_nodes_item (fst (processItems_item x par c))) = [c ..< ?c1]" "c < ?c1"
    and b: "map ref (all_nodes_array (fst (processItems_array xs par ?c1))) = [?c1 ..< ?c2]"
      "?c1 \<le> ?c2"
    by simp_all
  have "[c ..< ?c2] = [c ..< ?c1] @ [?c1 ..< ?c2]"
    using a(2) b(2) by (metis le_Suc_ex less_imp_le_nat upt_add_eq_append)
  with a b show ?case by (simp only: process_simps) simp
qed

lemma process_linked:
  "linked_item par (fst (processItems_item x par c))"
  "linked_array par (fst (processItems_array xs par c))"
proof (induction x par c and xs par c rule: processItems_item_processItems_array.induct)
  case (4 x xs par c)
  from 4(1) 4(2) [OF prod.collapse] show ?case
    by (simp only: process_simps fst_conv linked_array.simps simp_thms)
qed (simp_all only: process_simps fst_conv linked_item.simps linked_array.simps simp_thms)

lemma process_shift:
  "processItems_item x (map_option (\<lambda>q. q + k) par) (c + k) =
     (shift_item k (fst (processItems_item x par c)), snd (processItems_item x par c) + k)"
  "processItems_array xs (map_option (\<lambda>q. q + k) par) (c + k) =
     (shift_array k (fst (processItems_array xs par c)), snd (processItems_array xs par c) + k)"
proof (induction x par c and xs par c rule: processItems_item_processItems_array.induct)
  case (1 i f par c)
  then show ?case by simp
next
  case (2 i f cs par c)
  then have "processItems_array cs (Some (c + k)) (Suc (c + k)) =
     (shift_array k (fst (processItems_array cs (Some c) (Suc c))),
      snd (processItems_array cs (Some c) (Suc c)) + k)" by simp
  then show ?case by (simp only: process_simps) simp
next
  case (3 par c)
  then show ?case by simp
next
  case (4 x xs par c)
  from 4(1) 4(2) [OF prod.collapse] show ?case
    by (simp only: process_simps) simp
qed


subsection \<open>Back-references\<close>

lemma linked_root:
  "linked_item q n \<Longrightarrow> parent n = q"
  by (cases n rule: PNode_cases) auto

lemma linked_array_mem: "linked_array q ns \<Longrightarrow> m \<in> set ns \<Longrightarrow> linked_item q m"
  by (induction ns) auto

lemma linked_child:
  "linked_item q n \<Longrightarrow> m \<in> set (all_nodes_item n) \<Longrightarrow> children m = Some cs \<Longrightarrow>
     c \<in> set cs \<Longrightarrow> parent c = Some (ref m)"
  "linked_array q ns \<Longrightarrow> m \<in> set (all_nodes_array ns) \<Longrightarrow> children m = Some cs \<Longrightarrow>
     c \<in> set cs \<Longrightarrow> parent c = Some (ref m)"
proof (induction q n and q ns rule: linked_item_linked_array.induct)
  case (1 q r i f p)
  then show ?case by simp
next
  case (2 q r i f xs p)
  show ?case
  proof (cases "m \<in> set (all_nodes_array xs)")
    case True
    with 2 show ?thesis by simp
  next
    case False
    with "2.prems" have m: "m = PNode r i f (Some xs) p" by simp
    with "2.prems" have "linked_array (Some r) xs" "c \<in> set xs" by simp_all
    then have "parent c = Some r" by (blast intro: linked_root linked_array_mem)
    with m show ?thesis by simp
  qed
next
  case (3 q)
  then show ?case by simp
next
  case (4 q x xs)
  then show ?case by auto
qed

lemma linked_cases:
  "linked_item q n \<Longrightarrow> m \<in> set (all_nodes_item n) \<Longrightarrow>
     m = n \<or> (\<exists>p\<in>set (all_nodes_item n). \<exists>cs. children p = Some cs \<and> m \<in> set cs)"
  "linked_array q ns \<Longrightarrow> m \<in> set (all_nodes_array ns) \<Longrightarrow>
     m \<in> set ns \<or> (\<exists>p\<in>set (all_nodes_array ns). \<exists>cs. children p = Some cs \<and> m \<in> set cs)"
proof (induction q n and q ns rule: linked_item_linked_array.induct)
  case (1 q r i f p)
  then show ?case by simp
next
  case (2 q r i f xs p)
  show ?case
  proof (cases "m = PNode r i f (Some xs) p")
    case True
    then show ?thesis by simp
  next
    case False
    with "2.prems" have "m \<in> set (all_nodes_array xs)" "linked_array (Some r) xs" by simp_all
    with "2.IH" have "m \<in> set xs \<or>
      (\<exists>p\<in>set (all_nodes_array xs). \<exists>cs. children p = Some cs \<and> m \<in> set cs)" by simp
    then show ?thesis
    proof
      assume "m \<in> set xs"
      then have "\<exists>p\<in>set (all_nodes_item (PNode r i f (Some xs) p)).
          \<exists>cs. children p = Some cs \<and> m \<in> set cs"
        by (intro bexI [of _ "PNode r i f (Some xs) p"]) simp_all
      then show ?thesis ..
    next
      assume "\<exists>p\<in>set (all_nodes_array xs). \<exists>cs. children p = Some cs \<and> m \<in> set cs"
      then show ?thesis by auto
    qed
  qed
next
  case (3 q)
  then show ?case by simp
next
  case (4 q x xs)
  then show ?case by auto
qed

lemma deref_distinct:
  "distinct (map ref (all_nodes pd)) \<Longrightarrow> n \<in> set (all_nodes pd) \<Longrightarrow> deref pd (ref n) = Some n"
  by (simp add: deref_def find_distinct)

subsection \<open>Processed data\<close>

lemma processed_erase: "erase (processedData d c) = d"
  by (cases d) (simp_all add: processedData_def processItems_def erase_def process_erase)

lemma processed_ids: "map id' (all_nodes (processedData d c)) = input_ids d"
  by (cases d)
    (simp_all add: processedData_def processItems_def all_nodes_def input_ids_def process_ids)

lemma processed_id_set: "id' ` set (all_nodes (processedData d c)) = set (input_ids d)"
  using processed_ids [of d c] by (metis list.set_map)

lemma processed_refs_distinct: "distinct (map ref (all_nodes (processedData d c)))"
  by (cases d)
    (simp_all add: processedData_def processItems_def all_nodes_def process_refs)

lemma processed_roots: "r \<in> set (roots (processedData d c)) \<Longrightarrow> parent r = None"
proof (cases d)
  case (Single x)
  assume "r \<in> set (roots (processedData d c))"
  with Single have "r = fst (processItems_item x None c)"
    by (simp add: processedData_def processItems_def roots_def)
  then show ?thesis using process_linked(1) [of None x c] by (simp add: linked_root)
next
  case (Array xs)
  assume "r \<in> set (roots (processedData d c))"
  with Array have "r \<in> set (fst (processItems_array xs None c))"
    by (simp add: processedData_def processItems_def roots_def)
  then show ?thesis
    using process_linked(2) [of None xs c] by (blast intro: linked_root linked_array_mem)
qed

lemma processed_child:
  assumes "m \<in> set (all_nodes (processedData d c))" "children m = Some cs" "x \<in> set cs"
  shows "parent x = Some (ref m)"
proof (cases d)
  case (Single y)
  with assms show ?thesis
    using linked_child(1) [OF process_linked(1) [of None y c]]
    by (simp add: processedData_def processItems_def all_nodes_def)
next
  case (Array ys)
  with assms show ?thesis
    using linked_child(2) [OF process_linked(2) [of None ys c]]
    by (simp add: processedData_def processItems_def all_nodes_def)
qed

lemma processed_cases:
  assumes "m \<in> set (all_nodes (processedData d c))"
  shows "m \<in> set (roots (processedData d c)) \<or>
    (\<exists>p\<in>set (all_nodes (processedData d c)). \<exists>cs. children p = Some cs \<and> m \<in> set cs)"
proof (cases d)
  case (Single y)
  with assms show ?thesis
    using linked_cases(1) [OF process_linked(1) [of None y c], of m]
    by (simp add: processedData_def processItems_def all_nodes_def roots_def)
next
  case (Array ys)
  with assms show ?thesis
    using linked_cases(2) [OF process_linked(2) [of None ys c], of m]
    by (simp add: processedData_def processItems_def all_nodes_def roots_def)
qed

subsection \<open>Renaming object identities\<close>

lemma shift_sel:
  "id' (shift_item k n) = id' n" "ref (shift_item k n) = ref n + k"
  "parent (shift_item k n) = map_option (\<lambda>q. q + k) (parent n)"
  by (cases n rule: PNode_cases; simp)+

lemma shift_all_nodes:
  "all_nodes_item (shift_item k n) = map (shift_item k) (all_nodes_item n)"
  "all_nodes_array (shift_array k ns) = map (shift_item k) (all_nodes_array ns)"
  by (induction n and ns rule: all_nodes_item_all_nodes_array.induct) simp_all

lemma all_nodes_shift: "all_nodes (shift k pd) = map (shift_item k) (all_nodes pd)"
  by (cases pd) (simp_all add: shift_def all_nodes_def shift_all_nodes)

lemma find_shift:
  "find (\<lambda>n. ref n = r + k) (map (shift_item k) xs) = map_option (shift_item k) (find (\<lambda>n. ref n = r) xs)"
  by (induction xs) (simp_all add: shift_sel)

lemma deref_shift: "deref (shift k pd) (r + k) = map_option (shift_item k) (deref pd r)"
  by (simp add: deref_def all_nodes_shift find_shift)

lemma parentLinks_shift: "parentLinks (shift k pd) = parentLinks pd"
  by (auto simp: parentLinks_def all_nodes_shift shift_sel deref_shift option.map_comp comp_def
      split: option.split)

lemma processed_shift: "processedData d (c + k) = shift k (processedData d c)"
  using process_shift [of _ k None c]
  by (cases d) (simp_all add: processedData_def processItems_def shift_def)


lemmas example_defs = appData_def exampleTree_def branch_def leaf_def exampleProps_def

subsection \<open>The keyboard handler behind its guards\<close>

lemma keyboard_unfold:
  assumes "selectedItemId st = Some s" "s \<noteq> []"
    and "flatData_get h (flatNodePointers pd) s = JSObject cur"
    and "findIndex (\<lambda>node. id' node = s) (collectNodes pd (expandedItems st)) = Some i"
  shows "handleTreeKeyboardNavigation h props pd key st =
    (if key = ''ArrowDown'' then
       preventDefault
         (if i + 1 < length (collectNodes pd (expandedItems st))
          then handleSelectChange props (Some (collectNodes pd (expandedItems st) ! (i + 1))) st
          else st)
     else if key = ''ArrowUp'' then
       preventDefault
         (if i > 0
          then handleSelectChange props (Some (collectNodes pd (expandedItems st) ! (i - 1))) st
          else st)
     else if key = ''ArrowRight'' then
       preventDefault
         (case children cur of
            None \<Rightarrow> st
          | Some cs \<Rightarrow>
              if cs \<noteq> [] then
                (if s \<notin> set (expandedItems st)
                 then handleToggleExpand s True st
                 else handleSelectChange props (Some (hd cs)) st)
              else st)
     else if key = ''ArrowLeft'' then
       preventDefault
         (if s \<in> set (expandedItems st)
          then handleToggleExpand s False st
          else
            (case parent cur of
               None \<Rightarrow> st
             | Some r \<Rightarrow> handleSelectChange props (deref pd r) st))
     else st)"
proof -
  have "collectNodes pd (expandedItems st) ! i \<in> set (collectNodes pd (expandedItems st))"
    "id' (collectNodes pd (expandedItems st) ! i) = s"
    using assms(4) by (simp_all add: findIndex_Some)
  then have "s \<in> id' ` set (collectNodes pd (expandedItems st))" by force
  from currentNode_is_object [OF this, of h] assms(3) have id: "id' cur = s" by auto
  have arith: "(int i < int (length (collectNodes pd (expandedItems st))) - 1)
      = (i + 1 < length (collectNodes pd (expandedItems st)))" by auto
  have hd: "\<And>cs::PNode list. cs \<noteq> [] \<Longrightarrow> cs ! 0 = hd cs" by (simp add: hd_conv_nth)
  show ?thesis
    unfolding handleTreeKeyboardNavigation_def Let_def
    using assms id arith by (auto simp: hd split: option.split)
qed

lemma visible_index:
  assumes "s \<in> id' ` set xs"
  shows "\<exists>i. findIndex (\<lambda>node. id' node = s) xs = Some i"
proof (cases "findIndex (\<lambda>node. id' node = s) xs")
  case None
  with assms show ?thesis by (auto simp: findIndex_None)
qed simp

lemma sel_simps:
  "selectedItemId (preventDefault st) = selectedItemId st"
  "expandedItems (preventDefault st) = expandedItems st"
  "selectedItemId (handleSelectChange props item st) = map_option id' item"
  "expandedItems (handleSelectChange props item st) = expandedItems st"
  "selectedItemId (handleToggleExpand i b st) = selectedItemId st"
  "expandedItems (handleToggleExpand i b st) =
     (if b then expandedItems st @ [i] else filter (\<lambda>j. j \<noteq> i) (expandedItems st))"
  by (simp_all add: preventDefault_def handleSelectChange_def handleToggleExpand_def)

lemma nav_ids:
  assumes "selectedItemId st = Some s" "s \<noteq> []"
    and "map id' (collectNodes pd (expandedItems st)) = ids"
    and "findIndex (\<lambda>x. x = s) ids = Some i"
  shows "selectedItemId (handleTreeKeyboardNavigation h props pd ''ArrowDown'' st) =
           Some (if i + 1 < length ids then ids ! (i + 1) else s)
    \<and> expandedItems (handleTreeKeyboardNavigation h props pd ''ArrowDown'' st) = expandedItems st
    \<and> selectedItemId (handleTreeKeyboardNavigation h props pd ''ArrowUp'' st) =
           Some (if 0 < i then ids ! (i - 1) else s)
    \<and> expandedItems (handleTreeKeyboardNavigation h props pd ''ArrowUp'' st) = expandedItems st"
proof -
  let ?all = "collectNodes pd (expandedItems st)"
  have fi: "findIndex (\<lambda>node. id' node = s) ?all = Some i"
    using assms(3,4) findIndex_map [of id' s ?all] by simp
  then have i: "i < length ?all" and si: "id' (?all ! i) = s" by (simp_all add: findIndex_Some)
  have "?all ! i \<in> set ?all" using i by (rule nth_mem)
  then have "s \<in> id' ` set ?all" using si by force
  then obtain cur where cur: "flatData_get h (flatNodePointers pd) s = JSObject cur"
    using currentNode_is_object by blast
  note u = keyboard_unfold [OF assms(1,2) cur fi, of props]
  have len: "length ids = length ?all" using assms(3) [symmetric] by simp
  have nth: "ids ! k = id' (?all ! k)" if "k < length ?all" for k
    using assms(3) [symmetric] that by simp
  have d: "selectedItemId (handleTreeKeyboardNavigation h props pd ''ArrowDown'' st) =
           Some (if i + 1 < length ids then ids ! (i + 1) else s)"
    unfolding u len using assms(1) by (simp add: sel_simps nth)
  have up: "selectedItemId (handleTreeKeyboardNavigation h props pd ''ArrowUp'' st) =
           Some (if 0 < i then ids ! (i - 1) else s)"
    unfolding u using assms(1) i by (simp add: sel_simps nth)
  have e: "expandedItems (handleTreeKeyboardNavigation h props pd ''ArrowDown'' st) = expandedItems st"
    "expandedItems (handleTreeKeyboardNavigation h props pd ''ArrowUp'' st) = expandedItems st"
    unfolding u by (simp_all add: sel_simps)
  from d up e show ?thesis by simp
qed

lemma example_ids:
  assumes "''A'' \<in> set ex" "''B'' \<in> set ex" "d = Single exampleTree \<or> d = Array [exampleTree]"
  shows "map id' (collectNodes (processedData d c) ex) = [''A'', ''B'', ''D'', ''E'', ''C'']"
  using assms by (auto simp: processedData_def processItems_def collectNodes_def example_defs)

lemma example_visits:
  assumes "''A'' \<in> set ex" "''B'' \<in> set ex" "d = Single exampleTree \<or> d = Array [exampleTree]"
  shows "visits h props (processedData d c) [''ArrowDown'', ''ArrowDown'', ''ArrowDown'', ''ArrowUp'']
      \<lparr>selectedItemId = Some ''A'', expandedItems = ex, draggedItem = dr, trace = tr\<rparr>
    = [Some ''B'', Some ''D'', Some ''E'', Some ''D'']"
proof -
  let ?pd = "processedData d c"
  let ?ids = "[''A'', ''B'', ''D'', ''E'', ''C'']"
  define s0 where "s0 = \<lparr>selectedItemId = Some ''A'', expandedItems = ex, draggedItem = dr, trace = tr\<rparr>"
  define s1 where "s1 = handleTreeKeyboardNavigation h props ?pd ''ArrowDown'' s0"
  define s2 where "s2 = handleTreeKeyboardNavigation h props ?pd ''ArrowDown'' s1"
  define s3 where "s3 = handleTreeKeyboardNavigation h props ?pd ''ArrowDown'' s2"
  define s4 where "s4 = handleTreeKeyboardNavigation h props ?pd ''ArrowUp'' s3"
  have ids: "map id' (collectNodes ?pd ex) = ?ids" using assms by (rule example_ids)
  have 0: "selectedItemId s0 = Some ''A''" "expandedItems s0 = ex" by (simp_all add: s0_def)
  have 1: "selectedItemId s1 = Some ''B''" "expandedItems s1 = ex"
    using nav_ids [of s0 "''A''" ?pd ?ids 0 h props] 0 ids by (simp_all add: s1_def)
  have 2: "selectedItemId s2 = Some ''D''" "expandedItems s2 = ex"
    using nav_ids [of s1 "''B''" ?pd ?ids 1 h props] 1 ids by (simp_all add: s2_def)
  have 3: "selectedItemId s3 = Some ''E''" "expandedItems s3 = ex"
    using nav_ids [of s2 "''D''" ?pd ?ids 2 h props] 2 ids by (simp_all add: s3_def)
  have 4: "selectedItemId s4 = Some ''D''"
    using nav_ids [of s3 "''E''" ?pd ?ids 3 h props] 3 ids by (simp_all add: s4_def)
  have "visits h props ?pd [''ArrowDown'', ''ArrowDown'', ''ArrowDown'', ''ArrowUp''] s0
      = [selectedItemId s1, selectedItemId s2, selectedItemId s3, selectedItemId s4]"
    by (simp add: Let_def s1_def s2_def s3_def s4_def)
  then show ?thesis using 1 2 3 4 by (simp add: s0_def)
qed


subsection \<open>The walk\<close>

lemma all_nodes_item_descendants: "all_nodes_item n = n # descendants n"
  by (cases n rule: PNode_cases) (simp_all add: descendants_def)

lemma descendants_subset:
  "m \<in> set (all_nodes_item n) \<Longrightarrow> set (descendants m) \<subseteq> set (all_nodes_item n)"
  "m \<in> set (all_nodes_array ns) \<Longrightarrow> set (descendants m) \<subseteq> set (all_nodes_array ns)"
  by (induction n and ns rule: all_nodes_item_all_nodes_array.induct)
    (auto simp: descendants_def)

lemma anc_append: "ancestor_ids_in (xs @ ys) t = ancestor_ids_in xs t @ ancestor_ids_in ys t"
  by (simp add: ancestor_ids_in_def)

lemma anc_Cons:
  "ancestor_ids_in (x # xs) t =
     (if t \<in> id' ` set (descendants x) then [id' x] else []) @ ancestor_ids_in xs t"
  by (simp add: ancestor_ids_in_def)

lemma anc_absent_item:
  assumes "t \<notin> id' ` set (all_nodes_item n)"
  shows "ancestor_ids_in (all_nodes_item n) t = []"
  using assms descendants_subset(1) [of _ n]
  by (auto simp: ancestor_ids_in_def filter_empty_conv)

lemma anc_absent_array:
  assumes "t \<notin> id' ` set (all_nodes_array ns)"
  shows "ancestor_ids_in (all_nodes_array ns) t = []"
  using assms descendants_subset(2) [of _ ns]
  by (auto simp: ancestor_ids_in_def filter_empty_conv)

lemma anc_self:
  assumes "distinct (map id' (all_nodes_item n))" "id' n = t"
  shows "ancestor_ids_in (all_nodes_item n) t = []"
proof -
  have nd: "t \<notin> id' ` set (descendants n)"
    using assms by (simp add: all_nodes_item_descendants)
  show ?thesis
  proof (cases n rule: PNode_cases)
    case (Leaf r i f p)
    then show ?thesis by (simp add: ancestor_ids_in_def descendants_def)
  next
    case (Branch r i f cs p)
    with nd have "t \<notin> id' ` set (all_nodes_array cs)" by (simp add: descendants_def)
    then have "ancestor_ids_in (all_nodes_array cs) t = []" by (rule anc_absent_array)
    with nd Branch show ?thesis by (simp add: anc_Cons descendants_def)
  qed
qed

lemma walk_spec:
  "distinct (map id' (all_nodes_item n)) \<Longrightarrow>
     fst (walkTreeItems_item n t ids) = (t \<in> id' ` set (all_nodes_item n)) \<and>
     (\<exists>chain. snd (walkTreeItems_item n t ids) = ids @ chain \<and>
        set chain = (if t \<in> id' ` set (all_nodes_item n) \<and> id' n \<noteq> t
                     then insert t (set (ancestor_ids_in (all_nodes_item n) t)) else {}))"
  "distinct (map id' (all_nodes_array ns)) \<Longrightarrow>
     fst (walkTreeItems_array ns t ids) = (t \<in> id' ` set (all_nodes_array ns)) \<and>
     (\<exists>chain. snd (walkTreeItems_array ns t ids) = ids @ chain \<and>
        set chain = (if t \<in> id' ` set (all_nodes_array ns)
                     then insert t (set (ancestor_ids_in (all_nodes_array ns) t)) else {}))"
proof (induction n t ids and ns t ids rule: walkTreeItems_item_walkTreeItems_array.induct)
  case (1 r i f p targetId ids)
  then show ?case by auto
next
  case (2 r i f cs p targetId ids)
  let ?n = "PNode r i f (Some cs) p"
  show ?case
  proof (cases "i = targetId")
    case True
    then show ?thesis by simp
  next
    case False
    from "2.prems" have d: "distinct (map id' (all_nodes_array cs))" by simp
    from "2.IH" [OF False d] obtain chain where
      f: "fst (walkTreeItems_array cs targetId ids) = (targetId \<in> id' ` set (all_nodes_array cs))"
      and c: "snd (walkTreeItems_array cs targetId ids) = ids @ chain"
      and s: "set chain = (if targetId \<in> id' ` set (all_nodes_array cs)
                     then insert targetId (set (ancestor_ids_in (all_nodes_array cs) targetId)) else {})"
      by blast
    have anc: "ancestor_ids_in (all_nodes_item ?n) targetId =
        (if targetId \<in> id' ` set (all_nodes_array cs) then [i] else [])
          @ ancestor_ids_in (all_nodes_array cs) targetId"
      by (simp add: anc_Cons descendants_def)
    show ?thesis
    proof (cases "targetId \<in> id' ` set (all_nodes_array cs)")
      case True
      with f c have w: "walkTreeItems_item ?n targetId ids = (True, ids @ chain @ [i])"
        using False by (simp add: case_prod_beta)
      show ?thesis unfolding w fst_conv snd_conv using True False s anc by auto
    next
      case False2: False
      with f c s have w: "walkTreeItems_item ?n targetId ids = (False, ids)"
        using False by (simp add: case_prod_beta)
      show ?thesis unfolding w fst_conv snd_conv using False2 False by simp
    qed
  qed
next
  case (3 targetId ids)
  then show ?case by simp
next
  case (4 x xs targetId ids)
  from "4.prems" have dx: "distinct (map id' (all_nodes_item x))"
    and dxs: "distinct (map id' (all_nodes_array xs))"
    and disj: "id' ` set (all_nodes_item x) \<inter> id' ` set (all_nodes_array xs) = {}"
    by simp_all
  from "4.IH"(1) [OF dx] obtain chain where
    f: "fst (walkTreeItems_item x targetId ids) = (targetId \<in> id' ` set (all_nodes_item x))"
    and c: "snd (walkTreeItems_item x targetId ids) = ids @ chain"
    and s: "set chain = (if targetId \<in> id' ` set (all_nodes_item x) \<and> id' x \<noteq> targetId
                     then insert targetId (set (ancestor_ids_in (all_nodes_item x) targetId)) else {})"
    by blast
  show ?case
  proof (cases "targetId \<in> id' ` set (all_nodes_item x)")
    case True
    with f c have w: "walkTreeItems_array (x # xs) targetId ids = (True, ids @ chain @ [id' x])"
      by (simp add: case_prod_beta)
    from True disj have nx: "targetId \<notin> id' ` set (all_nodes_array xs)" by auto
    then have axs: "ancestor_ids_in (all_nodes_array xs) targetId = []" by (rule anc_absent_array)
    show ?thesis
    proof (cases "id' x = targetId")
      case True2: True
      then have "ancestor_ids_in (all_nodes_item x) targetId = []" using dx by (simp add: anc_self)
      with True True2 s axs show ?thesis unfolding w fst_conv snd_conv by (auto simp: anc_append)
    next
      case False
      with True have "targetId \<in> id' ` set (descendants x)"
        by (auto simp: all_nodes_item_descendants)
      then have "id' x \<in> set (ancestor_ids_in (all_nodes_item x) targetId)"
        by (simp add: all_nodes_item_descendants anc_Cons)
      with True False s axs show ?thesis unfolding w fst_conv snd_conv by (auto simp: anc_append)
    qed
  next
    case False
    with s c have ids1: "snd (walkTreeItems_item x targetId ids) = ids" by simp
    from False f have nf: "\<not> fst (walkTreeItems_item x targetId ids)" by simp
    have w: "walkTreeItems_array (x # xs) targetId ids = walkTreeItems_array xs targetId ids"
      using nf ids1 by (simp add: case_prod_beta)
    have ih: "fst (walkTreeItems_array xs targetId ids) = (targetId \<in> id' ` set (all_nodes_array xs)) \<and>
     (\<exists>chain. snd (walkTreeItems_array xs targetId ids) = ids @ chain \<and>
        set chain = (if targetId \<in> id' ` set (all_nodes_array xs)
                     then insert targetId (set (ancestor_ids_in (all_nodes_array xs) targetId)) else {}))"
      using "4.IH"(2) [OF prod.collapse nf dxs] ids1 by simp
    have "ancestor_ids_in (all_nodes_item x) targetId = []" using False by (rule anc_absent_item)
    with ih False show ?thesis unfolding w by (auto simp: anc_append image_Un)
  qed
qed


subsection \<open>The visible list as a filter\<close>

lemma visible_in_append:
  "visible_in (xs @ ys) ex n = (visible_in xs ex n \<and> visible_in ys ex n)"
  by (simp add: visible_in_def)

lemma visible_in_Cons:
  "visible_in (x # xs) ex n = ((n \<in> set (descendants x) \<longrightarrow> id' x \<in> set ex) \<and> visible_in xs ex n)"
  by (simp add: visible_in_def)

lemma visible_in_outside_item:
  assumes "n \<notin> set (all_nodes_item x)"
  shows "visible_in (all_nodes_item x) ex n"
  using assms descendants_subset(1) [of _ x]
  by (auto simp: visible_in_def list_all_iff)

lemma visible_in_outside_array:
  assumes "n \<notin> set (all_nodes_array xs)"
  shows "visible_in (all_nodes_array xs) ex n"
  using assms descendants_subset(2) [of _ xs]
  by (auto simp: visible_in_def list_all_iff)

lemma collect_filter:
  "distinct (all_nodes_item n) \<Longrightarrow>
     collectNodes_item ex n = filter (visible_in (all_nodes_item n) ex) (all_nodes_item n)"
  "distinct (all_nodes_array ns) \<Longrightarrow>
     collectNodes_array ex ns = filter (visible_in (all_nodes_array ns) ex) (all_nodes_array ns)"
proof (induction ex n and ex ns rule: collectNodes_item_collectNodes_array.induct)
  case (1 ex r i f p)
  then show ?case by (simp add: visible_in_def descendants_def)
next
  case (2 ex r i f cs p)
  let ?n = "PNode r i f (Some cs) p"
  from "2.prems" have nn: "?n \<notin> set (all_nodes_array cs)" and d: "distinct (all_nodes_array cs)"
    by simp_all
  have self: "visible_in (all_nodes_item ?n) ex ?n"
    using nn visible_in_outside_array [OF nn, of ex]
    by (simp add: visible_in_Cons descendants_def)
  have below: "visible_in (all_nodes_item ?n) ex m =
      (i \<in> set ex \<and> visible_in (all_nodes_array cs) ex m)"
    if "m \<in> set (all_nodes_array cs)" for m
    using that by (simp add: visible_in_Cons descendants_def)
  have "filter (visible_in (all_nodes_item ?n) ex) (all_nodes_array cs) =
      (if i \<in> set ex then filter (visible_in (all_nodes_array cs) ex) (all_nodes_array cs) else [])"
    using below by (auto intro: filter_cong simp: filter_empty_conv)
  with self "2.IH" d show ?case by simp
next
  case (3 ex)
  then show ?case by simp
next
  case (4 ex x xs)
  from "4.prems" have dx: "distinct (all_nodes_item x)" and dxs: "distinct (all_nodes_array xs)"
    and disj: "set (all_nodes_item x) \<inter> set (all_nodes_array xs) = {}"
    by simp_all
  have a: "filter (visible_in (all_nodes_array (x # xs)) ex) (all_nodes_item x) =
      filter (visible_in (all_nodes_item x) ex) (all_nodes_item x)"
  proof (rule filter_cong [OF refl])
    fix m assume "m \<in> set (all_nodes_item x)"
    with disj have "m \<notin> set (all_nodes_array xs)" by auto
    then show "visible_in (all_nodes_array (x # xs)) ex m = visible_in (all_nodes_item x) ex m"
      by (simp add: visible_in_append visible_in_outside_array)
  qed
  have b: "filter (visible_in (all_nodes_array (x # xs)) ex) (all_nodes_array xs) =
      filter (visible_in (all_nodes_array xs) ex) (all_nodes_array xs)"
  proof (rule filter_cong [OF refl])
    fix m assume "m \<in> set (all_nodes_array xs)"
    with disj have "m \<notin> set (all_nodes_item x)" by auto
    then show "visible_in (all_nodes_array (x # xs)) ex m = visible_in (all_nodes_array xs) ex m"
      by (simp add: visible_in_append visible_in_outside_item)
  qed
  from "4.IH" dx dxs a b show ?case by simp
qed

lemma distinct_map_imp: "distinct (map f xs) \<Longrightarrow> distinct xs"
  by (simp add: distinct_map)

lemma collectNodes_filter:
  "collectNodes (processedData d c) ex =
     filter (visible_in (all_nodes (processedData d c)) ex) (all_nodes (processedData d c))"
proof -
  have "distinct (all_nodes (processedData d c))"
    using processed_refs_distinct [of d c] by (rule distinct_map_imp)
  then show ?thesis
    by (cases "processedData d c")
      (simp_all add: collectNodes_def all_nodes_def collect_filter)
qed

subsection \<open>The builder on the store\<close>

lemma extends_refl: "extends s s"
  by (simp add: extends_def)

lemma extends_objects:
  "extends s s' \<Longrightarrow> i < length (objects s) \<Longrightarrow> objects s' ! i = objects s ! i"
  by (metis extends_def nth_take)

lemma extends_arrays:
  "extends s s' \<Longrightarrow> i < length (arrays s) \<Longrightarrow> arrays s' ! i = arrays s ! i"
  by (metis extends_def nth_take)

lemma extends_trans: "extends s s' \<Longrightarrow> extends s' s'' \<Longrightarrow> extends s s''"
proof -
  assume a: "extends s s'" and b: "extends s' s''"
  have t: "take n zs = xs" if "take n ys = xs" "take m zs = ys" "n \<le> m" for n m and xs ys zs :: "'a list"
    using that by (metis min.absorb1 take_take)
  from a b show ?thesis
    unfolding extends_def by (auto intro: t)
qed

lemma repr_extends:
  "extends s s' \<Longrightarrow> repr_item s a x \<Longrightarrow> repr_item s' a x"
  "extends s s' \<Longrightarrow> repr_array s as xs \<Longrightarrow> repr_array s' as xs"
proof (induction x and xs arbitrary: a and as rule: depth_item_depth_array.induct)
  case (1 i f)
  then show ?case by (auto simp: extends_objects) (simp add: extends_def)
next
  case (2 i f cs)
  from "2.prems" have a: "a < length (objects s)" by simp
  with "2.prems" have o: "objects s' ! a = objects s ! a" by (simp add: extends_objects)
  from "2.prems" obtain arr where arr: "o_children (objects s ! a) = Some arr"
    "arr < length (arrays s)" "repr_array s (arrays s ! arr) cs"
    by (auto split: option.splits)
  with "2.prems" have "arrays s' ! arr = arrays s ! arr" by (simp add: extends_arrays)
  moreover have "a < length (objects s')" "arr < length (arrays s')"
    using a arr(2) "2.prems"(1) by (simp_all add: extends_def)
  moreover have "repr_array s' (arrays s ! arr) cs" using "2.IH" "2.prems"(1) arr(3) by blast
  ultimately show ?case using "2.prems" o arr by simp
next
  case 3
  then show ?case by (cases as) simp_all
next
  case (4 x xs)
  then show ?case by (cases as) auto
qed

lemma out_bound:
  "out_item s p \<Longrightarrow> r \<in> ref ` set (all_nodes_item p) \<Longrightarrow> r < length (objects s)"
  "out_array s ps \<Longrightarrow> r \<in> ref ` set (all_nodes_array ps) \<Longrightarrow> r < length (objects s)"
  by (induction p and ps rule: all_nodes_item_all_nodes_array.induct) auto

lemma out_frame:
  "out_item s p \<Longrightarrow> length (arrays s) \<le> length (arrays s') \<Longrightarrow>
     take (length (arrays s)) (arrays s') = arrays s \<Longrightarrow>
     (\<forall>r\<in>ref ` set (all_nodes_item p). r < length (objects s') \<and> objects s' ! r = objects s ! r) \<Longrightarrow>
     out_item s' p"
  "out_array s ps \<Longrightarrow> length (arrays s) \<le> length (arrays s') \<Longrightarrow>
     take (length (arrays s)) (arrays s') = arrays s \<Longrightarrow>
     (\<forall>r\<in>ref ` set (all_nodes_array ps). r < length (objects s') \<and> objects s' ! r = objects s ! r) \<Longrightarrow>
     out_array s' ps"
proof (induction p and ps rule: all_nodes_item_all_nodes_array.induct)
  case (1 r i f p)
  then show ?case by simp
next
  case (2 r i f cs p)
  from "2.prems" obtain arr where arr: "o_children (objects s ! r) = Some arr"
    "arr < length (arrays s)" "arrays s ! arr = map ref cs"
    by (auto split: option.splits)
  have "arrays s' ! arr = arrays s ! arr"
    using arr(2) "2.prems"(2,3) by (metis nth_take)
  moreover have "out_array s' cs" using "2.IH" "2.prems" by simp
  ultimately show ?case using "2.prems" arr by simp
next
  case 3
  then show ?case by simp
next
  case (4 x xs)
  then show ?case by (simp add: image_Un)
qed

lemma out_extends:
  assumes "out_item s p" "extends s s'"
  shows "out_item s' p"
proof (rule out_frame(1) [OF assms(1)])
  show "length (arrays s) \<le> length (arrays s')" "take (length (arrays s)) (arrays s') = arrays s"
    using assms(2) by (simp_all add: extends_def)
  show "\<forall>r\<in>ref ` set (all_nodes_item p). r < length (objects s') \<and> objects s' ! r = objects s ! r"
  proof
    fix r assume "r \<in> ref ` set (all_nodes_item p)"
    then have "r < length (objects s)" using out_bound(1) [OF assms(1)] by blast
    then show "r < length (objects s') \<and> objects s' ! r = objects s ! r"
      using assms(2) by (simp add: extends_objects) (simp add: extends_def)
  qed
qed

lemma out_array_extends:
  assumes "out_array s ps" "extends s s'"
  shows "out_array s' ps"
  using assms by (induction ps) (auto intro: out_extends)

lemma process_ref: "ref (fst (processItems_item x par c)) = c"
proof (cases x)
  case (TreeDataItem i f cs)
  then show ?thesis by (cases cs) (simp_all add: case_prod_beta)
qed

lemma process_child_refs:
  "r \<in> ref ` set (all_nodes_array (fst (processItems_array xs par c))) \<Longrightarrow> c \<le> r"
  using process_refs(2) [of xs par c]
  by (metis (no_types, lifting) atLeastLessThan_iff list.set_map set_upt)

lemma process_store:
  "repr_item s a x \<Longrightarrow> depth_item x \<le> fuel \<Longrightarrow>
     \<exists>s'. processItems_obj fuel a par s = Some (length (objects s), s') \<and> extends s s'
       \<and> length (objects s') = snd (processItems_item x par (length (objects s)))
       \<and> out_item s' (fst (processItems_item x par (length (objects s))))"
  "repr_array s as xs \<Longrightarrow> depth_array xs \<le> fuel \<Longrightarrow>
     \<exists>s'. processItems_map fuel as par s =
             Some (map ref (fst (processItems_array xs par (length (objects s)))), s')
       \<and> extends s s'
       \<and> length (objects s') = snd (processItems_array xs par (length (objects s)))
       \<and> out_array s' (fst (processItems_array xs par (length (objects s))))"
proof (induction x and xs arbitrary: s a par fuel and s as par fuel
    rule: depth_item_depth_array.induct)
  case (1 i f)
  let ?c = "length (objects s)"
  let ?item = "objects s ! a"
  let ?s1 = "s\<lparr>objects := objects s @ [?item\<lparr>o_parent := par\<rparr>]\<rparr>"
  from "1.prems" obtain k where k: "fuel = Suc k" by (cases fuel) simp_all
  from "1.prems" have a: "a < ?c" "o_id ?item = i" "o_attrs ?item = f" "o_children ?item = None"
    by simp_all
  have run: "processItems_obj fuel a par s = Some (?c, ?s1)"
    using a by (simp add: k Let_def)
  have ext: "extends s ?s1" by (simp add: extends_def)
  have "?item\<lparr>o_parent := par\<rparr> = \<lparr>o_id = i, o_attrs = f, o_children = None, o_parent = par\<rparr>"
    using a by (cases ?item) simp
  then have out: "out_item ?s1 (PNode ?c i f None par)" by simp
  have pi: "processItems_item (TreeDataItem i f None) par ?c = (PNode ?c i f None par, Suc ?c)"
    by simp
  have len: "length (objects ?s1) = Suc ?c" by simp
  from run ext len out show ?case unfolding pi fst_conv snd_conv by blast
next
  case (2 i f cs)
  let ?c = "length (objects s)"
  let ?item = "objects s ! a"
  let ?s1 = "s\<lparr>objects := objects s @ [?item\<lparr>o_parent := par\<rparr>]\<rparr>"
  let ?cs' = "fst (processItems_array cs (Some ?c) (Suc ?c))"
  let ?c' = "snd (processItems_array cs (Some ?c) (Suc ?c))"
  from "2.prems" obtain k where k: "fuel = Suc k" "depth_array cs \<le> k" by (cases fuel) simp_all
  from "2.prems" obtain arr where a: "a < ?c" "o_id ?item = i" "o_attrs ?item = f"
    and arr: "o_children ?item = Some arr" "arr < length (arrays s)"
      "repr_array s (arrays s ! arr) cs"
    by (auto split: option.splits)
  have ext1: "extends s ?s1" by (simp add: extends_def)
  have r1: "repr_array ?s1 (arrays ?s1 ! arr) cs"
    using repr_extends(2) [OF ext1 arr(3)] by simp
  have len1: "length (objects ?s1) = Suc ?c" by simp
  from "2.IH" [OF r1 k(2), of "Some ?c"] obtain s2 where
    run2: "processItems_map k (arrays ?s1 ! arr) (Some ?c) ?s1 = Some (map ref ?cs', s2)"
    and ext2: "extends ?s1 s2"
    and len2: "length (objects s2) = ?c'"
    and out2: "out_array s2 ?cs'"
    unfolding len1 by blast
  let ?A = "length (arrays s2)"
  let ?s3 = "s2\<lparr>arrays := arrays s2 @ [map ref ?cs'],
      objects := (objects s2)[?c := (objects s2 ! ?c)\<lparr>o_children := Some ?A\<rparr>]\<rparr>"
  have run: "processItems_obj fuel a par s = Some (?c, ?s3)"
    using a arr run2 by (simp add: k Let_def)
  have c2: "?c < length (objects s2)" using ext2 by (simp add: extends_def)
  have obj: "objects s2 ! ?c = ?item\<lparr>o_parent := par\<rparr>"
    using extends_objects [OF ext2, of ?c] by simp
  have ext: "extends s ?s3"
  proof -
    have "extends s s2" using ext1 ext2 by (rule extends_trans)
    then show ?thesis by (simp add: extends_def)
  qed
  have outc: "out_array ?s3 ?cs'"
  proof (rule out_frame(2) [OF out2])
    show "length (arrays s2) \<le> length (arrays ?s3)"
      "take (length (arrays s2)) (arrays ?s3) = arrays s2" by simp_all
    show "\<forall>r\<in>ref ` set (all_nodes_array ?cs').
        r < length (objects ?s3) \<and> objects ?s3 ! r = objects s2 ! r"
    proof
      fix r assume r: "r \<in> ref ` set (all_nodes_array ?cs')"
      then have "Suc ?c \<le> r" by (rule process_child_refs)
      moreover have "r < length (objects s2)" using out_bound(2) [OF out2 r] .
      ultimately show "r < length (objects ?s3) \<and> objects ?s3 ! r = objects s2 ! r" by simp
    qed
  qed
  have o3: "objects ?s3 ! ?c = ?item\<lparr>o_parent := par, o_children := Some ?A\<rparr>"
    using c2 obj by simp
  have a3: "?A < length (arrays ?s3)" "arrays ?s3 ! ?A = map ref ?cs'" by simp_all
  have l3: "?c < length (objects ?s3)" using c2 by simp
  have out: "out_item ?s3 (PNode ?c i f (Some ?cs') par)"
    unfolding out_item.simps o3 using l3 a a3 outc by simp
  have pi: "processItems_item (TreeDataItem i f (Some cs)) par ?c =
      (PNode ?c i f (Some ?cs') par, ?c')"
    by (rule process_item_Some)
  have len: "length (objects ?s3) = ?c'" using len2 by simp
  from run ext len out show ?case unfolding pi fst_conv snd_conv by blast
next
  case 3
  then show ?case by (cases as) (simp_all add: extends_refl)
next
  case (4 x xs)
  let ?c = "length (objects s)"
  let ?y = "fst (processItems_item x par ?c)"
  let ?c1 = "snd (processItems_item x par ?c)"
  let ?ys = "fst (processItems_array xs par ?c1)"
  from "4.prems" obtain a as' where as: "as = a # as'" "repr_item s a x" "repr_array s as' xs"
    by (cases as) simp_all
  from "4.prems" have d: "depth_item x \<le> fuel" "depth_array xs \<le> fuel" by simp_all
  from "4.IH"(1) [OF as(2) d(1), of par] obtain s1 where
    run1: "processItems_obj fuel a par s = Some (?c, s1)"
    and ext1: "extends s s1" and len1: "length (objects s1) = ?c1" and out1: "out_item s1 ?y"
    by blast
  have r1: "repr_array s1 as' xs" using repr_extends(2) [OF ext1 as(3)] .
  from "4.IH"(2) [OF r1 d(2), of par] obtain s2 where
    run2: "processItems_map fuel as' par s1 = Some (map ref ?ys, s2)"
    and ext2: "extends s1 s2"
    and len2: "length (objects s2) = snd (processItems_array xs par ?c1)"
    and out2: "out_array s2 ?ys"
    unfolding len1 by blast
  have run: "processItems_map fuel as par s = Some (?c # map ref ?ys, s2)"
    using run1 run2 by (simp add: as(1))
  have ext: "extends s s2" using ext1 ext2 by (rule extends_trans)
  have o: "out_item s2 ?y" using out1 ext2 by (rule out_extends)
  have pa: "processItems_array (x # xs) par ?c =
      (?y # ?ys, snd (processItems_array xs par ?c1))"
    by (rule process_array_Cons)
  have run': "processItems_map fuel as par s = Some (map ref (?y # ?ys), s2)"
    using run by (simp add: process_ref)
  have oa: "out_array s2 (?y # ?ys)" using o out2 by simp
  from run' ext len2 oa show ?case unfolding pa fst_conv snd_conv by blast
qed

lemma repr_data_extends: "extends s s' \<Longrightarrow> repr_data s r d \<Longrightarrow> repr_data s' r d"
proof -
  assume e: "extends s s'" and r: "repr_data s r d"
  show ?thesis
  proof (cases r)
    case (ItemRef a)
    with r e show ?thesis
      by (cases d) (auto simp: repr_data_def intro: repr_extends(1))
  next
    case (ArrayRef arr)
    with r obtain xs where d: "d = Array xs" "arr < length (arrays s)"
      "repr_array s (arrays s ! arr) xs"
      by (cases d) (auto simp: repr_data_def)
    have "arr < length (arrays s')" "arrays s' ! arr = arrays s ! arr"
      using e d(2) by (simp_all add: extends_arrays) (simp add: extends_def)
    with d repr_extends(2) [OF e d(3)] ArrayRef show ?thesis by (simp add: repr_data_def)
  qed
qed

lemma out_data_extends: "extends s s' \<Longrightarrow> out_data s r pd \<Longrightarrow> out_data s' r pd"
proof -
  assume e: "extends s s'" and o: "out_data s r pd"
  show ?thesis
  proof (cases r)
    case (ItemRef a)
    with o e show ?thesis
      by (cases pd) (auto simp: out_data_def intro: out_extends)
  next
    case (ArrayRef arr)
    with o obtain xs where d: "pd = Array xs" "arr < length (arrays s)"
      "arrays s ! arr = map ref xs" "out_array s xs"
      by (cases pd) (auto simp: out_data_def)
    have "arr < length (arrays s')" "arrays s' ! arr = arrays s ! arr"
      using e d(2) by (simp_all add: extends_arrays) (simp add: extends_def)
    with d out_array_extends [OF d(4) e] ArrayRef show ?thesis by (simp add: out_data_def)
  qed
qed

lemma store_run:
  assumes "repr_data s r d" "depth d \<le> fuel"
  shows "\<exists>r' s'. processItems_store fuel r s = Some (r', s') \<and> extends s s'
    \<and> out_data s' r' (processedData d (length (objects s)))"
proof (cases r)
  case (ItemRef a)
  with assms obtain x where d: "d = Single x" "repr_item s a x" "depth_item x \<le> fuel"
    by (cases d) (auto simp: repr_data_def depth_def)
  from process_store(1) [OF d(2,3), of None] obtain s' where
    run: "processItems_obj fuel a None s = Some (length (objects s), s')"
    and ext: "extends s s'"
    and out: "out_item s' (fst (processItems_item x None (length (objects s))))"
    by blast
  have "processItems_store fuel r s = Some (ItemRef (length (objects s)), s')"
    using run by (simp add: processItems_store_def ItemRef)
  moreover have "out_data s' (ItemRef (length (objects s))) (processedData d (length (objects s)))"
    using out by (simp add: out_data_def processedData_def processItems_def d(1) process_ref)
  ultimately show ?thesis using ext by blast
next
  case (ArrayRef arr)
  with assms obtain xs where d: "d = Array xs" "arr < length (arrays s)"
    "repr_array s (arrays s ! arr) xs" "depth_array xs \<le> fuel"
    by (cases d) (auto simp: repr_data_def depth_def)
  let ?ys = "fst (processItems_array xs None (length (objects s)))"
  from process_store(2) [OF d(3,4), of None] obtain s' where
    run: "processItems_map fuel (arrays s ! arr) None s = Some (map ref ?ys, s')"
    and ext: "extends s s'"
    and out: "out_array s' ?ys"
    by blast
  let ?s'' = "s'\<lparr>arrays := arrays s' @ [map ref ?ys]\<rparr>"
  have run': "processItems_store fuel r s = Some (ArrayRef (length (arrays s')), ?s'')"
    using run d(2) by (simp add: processItems_store_def ArrayRef)
  have e': "extends s' ?s''" by (simp add: extends_def)
  have ext': "extends s ?s''" using ext e' by (rule extends_trans)
  have "out_array ?s'' ?ys" using out e' by (rule out_array_extends)
  then have "out_data ?s'' (ArrayRef (length (arrays s'))) (processedData d (length (objects s)))"
    by (simp add: out_data_def processedData_def processItems_def d(1))
  with run' ext' show ?thesis by blast
qed

section \<open>The model builder (C7, C8)\<close>

text \<open>
  C7 (amended). For caller data with unique ids, single item or array, at any depth: the
  processed structure is the input with identities and back-references added (erasing them
  gives the input back); every root has no parent; every child's back-reference is the
  identity of the processed object whose \<^verbatim>\<open>children\<close> holds it, and reading that
  reference gives this object; every object is a root or such a child. The keys (own
  properties) of the flat index are exactly the ids of the input other than
  \<^verbatim>\<open>__proto__\<close>; an item with the id \<^verbatim>\<open>__proto__\<close> becomes the prototype of the flat index
  instead; and on every host the flat index read at the id of a processed object, also at
  \<^verbatim>\<open>__proto__\<close>, gives that object.
\<close>

theorem model_builder_correct:
  assumes "distinct (input_ids d)"
  shows "erase (processedData d c) = d
    \<and> (\<forall>r\<in>set (roots (processedData d c)). parent r = None)
    \<and> (\<forall>n\<in>set (all_nodes (processedData d c)). \<forall>cs x.
          children n = Some cs \<and> x \<in> set cs \<longrightarrow>
            parent x = Some (ref n) \<and> deref (processedData d c) (ref n) = Some n)
    \<and> (\<forall>m\<in>set (all_nodes (processedData d c)).
          m \<in> set (roots (processedData d c)) \<or>
          (\<exists>n\<in>set (all_nodes (processedData d c)). \<exists>cs. children n = Some cs \<and> m \<in> set cs))
    \<and> dom (own (flatNodePointers (processedData d c))) = set (input_ids d) - {''__proto__''}
    \<and> (proto (flatNodePointers (processedData d c)) \<noteq> None) = (''__proto__'' \<in> set (input_ids d))
    \<and> (\<forall>n\<in>set (all_nodes (processedData d c)). \<forall>h.
          flatData_get h (flatNodePointers (processedData d c)) (id' n) = JSObject n)"
proof -
  let ?pd = "processedData d c"
  have ids: "distinct (map id' (all_nodes ?pd))" using assms by (simp add: processed_ids)
  have "dom (own (flatNodePointers ?pd)) = set (input_ids d) - {''__proto__''}"
    by (simp add: flat_own_dom processed_id_set)
  moreover have "(proto (flatNodePointers ?pd) \<noteq> None) = (''__proto__'' \<in> set (input_ids d))"
  proof -
    have "(''__proto__'' \<in> dom (entry (flatNodePointers ?pd))) = (''__proto__'' \<in> set (input_ids d))"
      by (simp only: flat_dom processed_id_set)
    then show ?thesis by (simp add: entry_def dom_def)
  qed
  moreover have "\<forall>n\<in>set (all_nodes ?pd). \<forall>h.
      flatData_get h (flatNodePointers ?pd) (id' n) = JSObject n"
    using ids by (simp add: flat_lookup get_entry)
  moreover have "\<forall>n\<in>set (all_nodes ?pd). \<forall>cs x.
          children n = Some cs \<and> x \<in> set cs \<longrightarrow>
            parent x = Some (ref n) \<and> deref ?pd (ref n) = Some n"
    by (auto simp: processed_child deref_distinct processed_refs_distinct)
  moreover have "\<forall>r\<in>set (roots ?pd). parent r = None"
    by (simp add: processed_roots)
  moreover have "\<forall>m\<in>set (all_nodes ?pd). m \<in> set (roots ?pd) \<or>
          (\<exists>n\<in>set (all_nodes ?pd). \<exists>cs. children n = Some cs \<and> m \<in> set cs)"
    using processed_cases by blast
  ultimately show ?thesis by (simp add: processed_erase)
qed

text \<open>
  The data of \<^verbatim>\<open>App.tsx\<close> has unique ids; the builder's result on it. And the data
  \<^verbatim>\<open>[{id: '__proto__'}, {id: 'Y'}]\<close>: the item \<^verbatim>\<open>__proto__\<close> is read back from the flat
  index although it is not a key.
\<close>

theorem model_builder_correct_witness:
  "distinct (input_ids appData)
   \<and> erase (processedData appData 0) = appData
   \<and> dom (own (flatNodePointers (processedData appData 0))) = set (input_ids appData) - {''__proto__''}
   \<and> parent (the (own (flatNodePointers (processedData appData 0)) ''3'')) = Some 1
   \<and> map_option id' (deref (processedData appData 0) 1) = Some ''2''
   \<and> distinct (input_ids protoData)
   \<and> dom (own (flatNodePointers (processedData protoData 0))) = set (input_ids protoData) - {''__proto__''}
   \<and> flatData_get (standardHost (processedData protoData 0))
        (flatNodePointers (processedData protoData 0)) ''__proto__''
      = JSObject (hd (all_nodes (processedData protoData 0)))"
proof -
  have h: "distinct (input_ids appData)" "distinct (input_ids protoData)" by code_simp+
  have p: "parent (the (own (flatNodePointers (processedData appData 0)) ''3'')) = Some 1"
    "map_option id' (deref (processedData appData 0) 1) = Some ''2''"
    by code_simp+
  have q: "hd (all_nodes (processedData protoData 0)) \<in> set (all_nodes (processedData protoData 0))"
    "id' (hd (all_nodes (processedData protoData 0))) = ''__proto__''"
    by code_simp+
  note t1 = model_builder_correct [OF h(1), of 0]
  note t2 = model_builder_correct [OF h(2), of 0]
  note five = conjunct2 [THEN conjunct2, THEN conjunct2, THEN conjunct2]
  have e1: "erase (processedData appData 0) = appData" using t1 by (rule conjunct1)
  have d1: "dom (own (flatNodePointers (processedData appData 0)))
      = set (input_ids appData) - {''__proto__''}"
    using t1 [THEN five] by (rule conjunct1)
  have d2: "dom (own (flatNodePointers (processedData protoData 0)))
      = set (input_ids protoData) - {''__proto__''}"
    using t2 [THEN five] by (rule conjunct1)
  have "\<forall>n\<in>set (all_nodes (processedData protoData 0)). \<forall>h.
      flatData_get h (flatNodePointers (processedData protoData 0)) (id' n) = JSObject n"
    using t2 [THEN five] by (rule conjunct2 [THEN conjunct2])
  from this q(1) have "\<forall>h. flatData_get h (flatNodePointers (processedData protoData 0))
      (id' (hd (all_nodes (processedData protoData 0))))
      = JSObject (hd (all_nodes (processedData protoData 0)))"
    by (rule bspec)
  then have g: "flatData_get (standardHost (processedData protoData 0))
        (flatNodePointers (processedData protoData 0)) ''__proto__''
      = JSObject (hd (all_nodes (processedData protoData 0)))"
    unfolding q(2) by (rule spec)
  from h e1 d1 p d2 g show ?thesis by (intro conjI)
qed

text \<open>
  C7 as stated fails on the key set: for the data \<^verbatim>\<open>[{id: '__proto__'}, {id: 'Y'}]\<close>,
  whose ids are unique, the assignment \<^verbatim>\<open>flatData['__proto__'] = item\<close> sets the prototype
  and adds no key, so the key set of the flat index is not the set of the ids of the input.
\<close>

theorem model_builder_correct_counterexample:
  "distinct (input_ids protoData)
   \<and> ''__proto__'' \<in> set (input_ids protoData)
   \<and> ''__proto__'' \<notin> dom (own (flatNodePointers (processedData protoData 0)))
   \<and> dom (own (flatNodePointers (processedData protoData 0))) \<noteq> set (input_ids protoData)"
proof -
  have a: "distinct (input_ids protoData)" "''__proto__'' \<in> set (input_ids protoData)"
    "own (flatNodePointers (processedData protoData 0)) ''__proto__'' = None"
    by code_simp+
  then have "''__proto__'' \<notin> dom (own (flatNodePointers (processedData protoData 0)))"
    by (simp add: dom_def)
  with a show ?thesis by auto
qed

text \<open>
  C8. In a store that holds the caller's data, with a bound of at least the depth of the
  data, the builder returns. Every object and every array that was in the store before the
  call is in it afterwards with the same contents, so the caller's data is the same data
  after the call: the builder writes to objects and arrays of its own making only. What it
  returns is the processed tree that \<open>processedData\<close> computes from the data and the next
  free address, so the data alone decides the result up to the addresses of the new objects.
  A second call on the same reference, in the store that the first call left, returns as
  well, leaves the data and the first result as they were, and its result has a flat index
  with the same keys and the same parent links by id as the first result.
\<close>

theorem model_builder_pure:
  assumes "repr_data s r d" "depth d \<le> fuel"
  shows "\<exists>r1 s1 r2 s2.
      processItems_store fuel r s = Some (r1, s1)
    \<and> processItems_store fuel r s1 = Some (r2, s2)
    \<and> extends s s1 \<and> extends s1 s2
    \<and> repr_data s1 r d \<and> repr_data s2 r d
    \<and> out_data s1 r1 (processedData d (length (objects s)))
    \<and> out_data s2 r1 (processedData d (length (objects s)))
    \<and> out_data s2 r2 (processedData d (length (objects s1)))
    \<and> dom (own (flatNodePointers (processedData d (length (objects s)))))
        = dom (own (flatNodePointers (processedData d (length (objects s1)))))
    \<and> parentLinks (processedData d (length (objects s)))
        = parentLinks (processedData d (length (objects s1)))
    \<and> erase (processedData d (length (objects s))) = d
    \<and> erase (processedData d (length (objects s1))) = d"
proof -
  from store_run [OF assms] obtain r1 s1 where
    run1: "processItems_store fuel r s = Some (r1, s1)" and ext1: "extends s s1"
    and out1: "out_data s1 r1 (processedData d (length (objects s)))"
    by blast
  have rep1: "repr_data s1 r d" using ext1 assms(1) by (rule repr_data_extends)
  from store_run [OF rep1 assms(2)] obtain r2 s2 where
    run2: "processItems_store fuel r s1 = Some (r2, s2)" and ext2: "extends s1 s2"
    and out2: "out_data s2 r2 (processedData d (length (objects s1)))"
    by blast
  have rep2: "repr_data s2 r d" using ext2 rep1 by (rule repr_data_extends)
  have out1': "out_data s2 r1 (processedData d (length (objects s)))"
    using ext2 out1 by (rule out_data_extends)
  let ?c1 = "length (objects s)" and ?c2 = "length (objects s1)"
  have sh: "shift ?c2 (processedData d ?c1) = shift ?c1 (processedData d ?c2)"
    using processed_shift [of d ?c1 ?c2] processed_shift [of d ?c2 ?c1] by (simp add: add.commute)
  have "parentLinks (processedData d ?c1) = parentLinks (shift ?c2 (processedData d ?c1))"
    by (simp add: parentLinks_shift)
  also have "\<dots> = parentLinks (processedData d ?c2)"
    by (simp add: sh parentLinks_shift)
  finally have pl: "parentLinks (processedData d ?c1) = parentLinks (processedData d ?c2)" .
  have keys: "dom (own (flatNodePointers (processedData d ?c1)))
      = dom (own (flatNodePointers (processedData d ?c2)))"
    by (simp add: flat_own_dom processed_id_set)
  from run1 run2 ext1 ext2 rep1 rep2 out1 out1' out2 keys pl
  show ?thesis by (intro exI conjI) (assumption | rule processed_erase)+
qed

text \<open>Two calls on the store that holds the tree \<^verbatim>\<open>A{B{D,E},C}\<close> at address 0.\<close>

theorem model_builder_pure_witness:
  "repr_data exampleStore (ItemRef 0) (Single exampleTree)
   \<and> depth (Single exampleTree) \<le> 3
   \<and> map_option fst (processItems_store 3 (ItemRef 0) exampleStore) = Some (ItemRef 5)
   \<and> (\<exists>r1 s1 r2 s2.
        processItems_store 3 (ItemRef 0) exampleStore = Some (r1, s1)
      \<and> processItems_store 3 (ItemRef 0) s1 = Some (r2, s2)
      \<and> extends exampleStore s1 \<and> extends s1 s2
      \<and> repr_data s2 (ItemRef 0) (Single exampleTree)
      \<and> out_data s2 r1 (processedData (Single exampleTree) 5)
      \<and> out_data s2 r2 (processedData (Single exampleTree) (length (objects s1))))"
proof -
  have a: "repr_data exampleStore (ItemRef 0) (Single exampleTree)"
    and b: "depth (Single exampleTree) \<le> 3"
    and c: "map_option fst (processItems_store 3 (ItemRef 0) exampleStore) = Some (ItemRef 5)"
    and l: "length (objects exampleStore) = 5"
    by code_simp+
  from model_builder_pure [OF a b] a b c show ?thesis unfolding l by blast
qed

section \<open>Selection and drop (C5, C6)\<close>

text \<open>
  C5. \<^verbatim>\<open>handleDrop\<close> invokes \<^verbatim>\<open>onDocumentDrag(draggedItem, targetItem)\<close> exactly when
  there is a dragged item, the callback is registered and the two ids differ; otherwise
  no callback is invoked. In every case \<^verbatim>\<open>draggedItem\<close> is \<^verbatim>\<open>null\<close> afterwards. Dropping
  an item onto itself invokes nothing.
\<close>

theorem handleDrop_callback:
  "draggedItem (handleDrop props t st) = None
   \<and> (trace (handleDrop props t st) = trace st @ [OnDocumentDrag src t]) =
       (draggedItem st = Some src \<and> onDocumentDrag props \<and> id' src \<noteq> id' t)
   \<and> (trace (handleDrop props t st) = trace st) =
       (draggedItem st = None \<or> \<not> onDocumentDrag props
         \<or> (\<exists>x. draggedItem st = Some x \<and> id' x = id' t))
   \<and> (draggedItem st = Some t \<longrightarrow> trace (handleDrop props t st) = trace st)
   \<and> selectedItemId (handleDrop props t st) = selectedItemId st
   \<and> expandedItems (handleDrop props t st) = expandedItems st"
  by (cases "draggedItem st") (auto simp: handleDrop_def)

text \<open>A self-drop, and a drop of \<open>nodeD\<close> onto \<open>nodeE\<close>.\<close>

theorem handleDrop_callback_witness:
  "draggedItem (handleDragStart nodeD (exampleState None [])) = Some nodeD
   \<and> trace (handleDrop (exampleProps appData None) nodeD
        (handleDragStart nodeD (exampleState None []))) = []
   \<and> trace (handleDrop (exampleProps appData None) nodeE
        (handleDragStart nodeD (exampleState None []))) = [OnDocumentDrag nodeD nodeE]
   \<and> draggedItem (handleDrop (exampleProps appData None) nodeE
        (handleDragStart nodeD (exampleState None []))) = None"
proof -
  let ?P = "exampleProps appData None"
  let ?st = "handleDragStart nodeD (exampleState None [])"
  have a: "draggedItem ?st = Some nodeD" "trace ?st = []"
    by (simp_all add: handleDragStart_def exampleState_def)
  have b: "onDocumentDrag ?P" "id' nodeD \<noteq> id' nodeE"
    by (simp_all add: exampleProps_def nodeD_def nodeE_def)
  from handleDrop_callback [of ?P nodeD ?st nodeD] handleDrop_callback [of ?P nodeE ?st nodeD] a b
  show ?thesis by simp
qed




section \<open>Keyboard navigation (C2, C3, C4, C10)\<close>

text \<open>
  C10. When nothing is selected (\<^verbatim>\<open>selectedItemId\<close> is \<^verbatim>\<open>undefined\<close> or the empty
  string), or the selected id is not a key of the flat index, or no node of the flattened
  visible list has the selected id, the keyboard handler returns the state unchanged,
  for every key.
\<close>

theorem keyboard_frame:
  assumes "selectedItemId st = None \<or> selectedItemId st = Some []
    \<or> (\<exists>s. selectedItemId st = Some s
          \<and> (\<not> truthy (flatData_get h (flatNodePointers pd) s)
              \<or> s \<notin> id' ` set (collectNodes pd (expandedItems st))))"
  shows "handleTreeKeyboardNavigation h props pd key st = st"
proof -
  consider "selectedItemId st = None" | "selectedItemId st = Some []"
    | s where "selectedItemId st = Some s" "\<not> truthy (flatData_get h (flatNodePointers pd) s)"
    | s where "selectedItemId st = Some s"  "s \<notin> id' ` set (collectNodes pd (expandedItems st))"
    using assms by auto
  then show ?thesis
  proof cases
    case 4
    then have "findIndex (\<lambda>node. id' node = s) (collectNodes pd (expandedItems st)) = None"
      by (auto simp: findIndex_None)
    with 4 show ?thesis
      by (simp add: handleTreeKeyboardNavigation_def Let_def split: option.split)
  qed (simp_all add: handleTreeKeyboardNavigation_def Let_def)
qed

text \<open>In \<^verbatim>\<open>A{B{D,E},C}\<close> with nothing expanded, \<open>D\<close> is selected but not visible.\<close>

theorem keyboard_frame_witness:
  "''D'' \<notin> id' ` set (collectNodes examplePd (expandedItems (exampleState (Some ''D'') [])))
   \<and> map (\<lambda>key. handleTreeKeyboardNavigation exampleHost (exampleProps (Single exampleTree) None) examplePd
          key (exampleState (Some ''D'') []))
        [''ArrowDown'', ''ArrowUp'', ''ArrowRight'', ''ArrowLeft'']
      = replicate 4 (exampleState (Some ''D'') [])"
proof -
  let ?st = "exampleState (Some ''D'') []"
  have a: "selectedItemId ?st = Some ''D''" by (simp add: exampleState_def)
  have b: "''D'' \<notin> id' ` set (collectNodes examplePd (expandedItems ?st))" by code_simp
  have "handleTreeKeyboardNavigation exampleHost (exampleProps (Single exampleTree) None) examplePd key ?st
      = ?st" for key
    using keyboard_frame [where st = ?st and pd = examplePd and h = exampleHost
        and props = "exampleProps (Single exampleTree) None" and key = key] a b
    by blast
  with b show ?thesis by (simp add: numeral_eq_Suc)
qed

text \<open>
  C2 (amended). Let the selected id be non-empty, \<open>cur\<close> the node the flat index holds for
  it, and let a node with that id occur in the flattened visible list. On ArrowRight: if
  \<open>cur\<close> has a non-empty \<^verbatim>\<open>children\<close> array and its id is not expanded, the id is appended
  to \<^verbatim>\<open>expandedItems\<close> and the selection stays; if \<open>cur\<close> has a non-empty \<^verbatim>\<open>children\<close>
  array and its id is expanded, the first child becomes selected and \<^verbatim>\<open>expandedItems\<close>
  stays; if \<^verbatim>\<open>children\<close> is absent or empty, selection and expansion stay as they are.
\<close>

theorem arrow_right:
  assumes "selectedItemId st = Some s" "s \<noteq> []"
    and "flatData_get h (flatNodePointers pd) s = JSObject cur"
    and "s \<in> id' ` set (collectNodes pd (expandedItems st))"
    and "st' = handleTreeKeyboardNavigation h props pd ''ArrowRight'' st"
  shows "id' cur = s
    \<and> (\<forall>c cs. children cur = Some (c # cs) \<and> s \<notin> set (expandedItems st) \<longrightarrow>
          expandedItems st' = expandedItems st @ [s] \<and> selectedItemId st' = Some s)
    \<and> (\<forall>c cs. children cur = Some (c # cs) \<and> s \<in> set (expandedItems st) \<longrightarrow>
          selectedItemId st' = Some (id' c) \<and> expandedItems st' = expandedItems st)
    \<and> (children cur = None \<or> children cur = Some [] \<longrightarrow>
          selectedItemId st' = Some s \<and> expandedItems st' = expandedItems st)"
proof -
  obtain i where "findIndex (\<lambda>node. id' node = s) (collectNodes pd (expandedItems st)) = Some i"
    using visible_index [OF assms(4)] ..
  note u = keyboard_unfold [OF assms(1-3) this, of props "''ArrowRight''"]
  have "id' cur = s" using currentNode_is_object [OF assms(4), of h] assms(3) by auto
  then show ?thesis
    unfolding assms(5) u using assms(1) by (auto simp: sel_simps)
qed

text \<open>ArrowRight twice on the root of \<^verbatim>\<open>A{B{D,E},C}\<close>: expand, then move to \<open>B\<close>.\<close>

theorem arrow_right_witness:
  "expandedItems (handleTreeKeyboardNavigation exampleHost (exampleProps (Single exampleTree) None) examplePd
      ''ArrowRight'' (exampleState (Some ''A'') [])) = [''A'']
   \<and> selectedItemId (handleTreeKeyboardNavigation exampleHost (exampleProps (Single exampleTree) None) examplePd
      ''ArrowRight'' (exampleState (Some ''A'') [''A''])) = Some ''B''"
proof -
  let ?P = "exampleProps (Single exampleTree) None"
  let ?cur = "the (own (flatNodePointers examplePd) ''A'')"
  let ?c = "hd (the (children ?cur))" and ?cs = "tl (the (children ?cur))"
  have a: "selectedItemId (exampleState (Some ''A'') ex) = Some ''A''" for ex
    by (simp add: exampleState_def)
  have b: "''A'' \<noteq> []" by simp
  have c: "flatData_get exampleHost (flatNodePointers examplePd) ''A'' = JSObject ?cur" by code_simp
  have d1: "''A'' \<in> id' ` set (collectNodes examplePd (expandedItems (exampleState (Some ''A'') [])))"
    by code_simp
  have d2: "''A'' \<in> id' ` set (collectNodes examplePd (expandedItems (exampleState (Some ''A'') [''A''])))"
    by code_simp
  have e: "children ?cur = Some (?c # ?cs)" by code_simp
  have f: "id' ?c = ''B''" by code_simp
  have g: "expandedItems (exampleState (Some ''A'') ex) = ex" for ex
    by (simp add: exampleState_def)
  from arrow_right [OF a b c d1 refl, of ?P] e have "expandedItems (handleTreeKeyboardNavigation exampleHost ?P examplePd
      ''ArrowRight'' (exampleState (Some ''A'') [])) = [''A'']"
    by (auto simp: g)
  moreover from arrow_right [OF a b c d2 refl, of ?P] e f
  have "selectedItemId (handleTreeKeyboardNavigation exampleHost ?P examplePd
      ''ArrowRight'' (exampleState (Some ''A'') [''A''])) = Some ''B''"
    by (auto simp: g)
  ultimately show ?thesis ..
qed

text \<open>
  C2 as stated fails in two ways. A selected, visible, collapsed node whose \<^verbatim>\<open>children\<close>
  array is present and empty is not a leaf, yet ArrowRight does not add its id to
  \<^verbatim>\<open>expandedItems\<close> (the guard \<^verbatim>\<open>currentNode.children.length > 0\<close>). And a selected
  collapsed branch that is not visible (here \<open>B\<close> below the collapsed \<open>A\<close>) is not
  expanded either (the guard \<^verbatim>\<open>currentIndex === -1\<close>).
\<close>

theorem arrow_right_counterexample:
  "children (the (own (flatNodePointers emptyBranchPd) ''A'')) = Some []
   \<and> ''A'' \<in> id' ` set (collectNodes emptyBranchPd [])
   \<and> ''A'' \<notin> set (expandedItems (handleTreeKeyboardNavigation (standardHost emptyBranchPd)
        (exampleProps (Single (branch ''A'' [])) None) emptyBranchPd ''ArrowRight''
        (exampleState (Some ''A'') [])))
   \<and> children (the (own (flatNodePointers examplePd) ''B'')) \<noteq> None
   \<and> ''B'' \<notin> set (expandedItems (handleTreeKeyboardNavigation
        exampleHost (exampleProps (Single exampleTree) None) examplePd ''ArrowRight''
        (exampleState (Some ''B'') [])))"
  by code_simp

text \<open>
  C3 (amended). Let the selected id be non-empty and \<open>i\<close> the first position of a node
  with that id in \<open>allNodes\<close>, the depth-first list of the visible nodes. ArrowDown
  selects the node at \<open>i + 1\<close> and changes nothing at the last position; ArrowUp selects
  the node at \<open>i - 1\<close> and changes nothing at the first position; neither changes
  \<^verbatim>\<open>expandedItems\<close>. For a tree made by the model builder, the list of the visible nodes
  is the pre-order list of all nodes restricted to the nodes all of whose proper ancestors
  have their id in \<^verbatim>\<open>expandedItems\<close>. In the tree
  \<^verbatim>\<open>A{B{D,E},C}\<close>, given as a single item or as an array of one root, with both \<open>A\<close> and
  \<open>B\<close> expanded and \<open>A\<close> selected, the keys Down, Down, Down, Up select \<open>B\<close>, \<open>D\<close>,
  \<open>E\<close>, \<open>D\<close>.
\<close>

theorem arrow_down_up:
  "(selectedItemId st = Some s \<and> s \<noteq> [] \<and> allNodes = collectNodes pd (expandedItems st)
      \<and> i < length allNodes \<and> id' (allNodes ! i) = s \<and> (\<forall>j<i. id' (allNodes ! j) \<noteq> s)
      \<and> down = handleTreeKeyboardNavigation h props pd ''ArrowDown'' st
      \<and> up = handleTreeKeyboardNavigation h props pd ''ArrowUp'' st
    \<longrightarrow>
      (i + 1 < length allNodes \<longrightarrow> selectedItemId down = Some (id' (allNodes ! (i + 1))))
      \<and> (i + 1 = length allNodes \<longrightarrow> selectedItemId down = Some s)
      \<and> (0 < i \<longrightarrow> selectedItemId up = Some (id' (allNodes ! (i - 1))))
      \<and> (i = 0 \<longrightarrow> selectedItemId up = Some s)
      \<and> expandedItems down = expandedItems st \<and> expandedItems up = expandedItems st)
   \<and> collectNodes (processedData d' c') ex' =
       filter (visible_in (all_nodes (processedData d' c')) ex') (all_nodes (processedData d' c'))
   \<and> (''A'' \<in> set ex \<and> ''B'' \<in> set ex \<and> (d = Single exampleTree \<or> d = Array [exampleTree])
    \<longrightarrow>
      visits h' props' (processedData d c) [''ArrowDown'', ''ArrowDown'', ''ArrowDown'', ''ArrowUp'']
        \<lparr>selectedItemId = Some ''A'', expandedItems = ex, draggedItem = dr, trace = tr\<rparr>
      = [Some ''B'', Some ''D'', Some ''E'', Some ''D''])"
proof (intro conjI; (rule impI)?)
  show "collectNodes (processedData d' c') ex' =
       filter (visible_in (all_nodes (processedData d' c')) ex') (all_nodes (processedData d' c'))"
    by (rule collectNodes_filter)
next
  assume h: "selectedItemId st = Some s \<and> s \<noteq> [] \<and> allNodes = collectNodes pd (expandedItems st)
      \<and> i < length allNodes \<and> id' (allNodes ! i) = s \<and> (\<forall>j<i. id' (allNodes ! j) \<noteq> s)
      \<and> down = handleTreeKeyboardNavigation h props pd ''ArrowDown'' st
      \<and> up = handleTreeKeyboardNavigation h props pd ''ArrowUp'' st"
  then have sel: "selectedItemId st = Some s" "s \<noteq> []"
    and an: "allNodes = collectNodes pd (expandedItems st)"
    and i: "i < length allNodes" "id' (allNodes ! i) = s" "\<forall>j<i. id' (allNodes ! j) \<noteq> s"
    and du: "down = handleTreeKeyboardNavigation h props pd ''ArrowDown'' st"
      "up = handleTreeKeyboardNavigation h props pd ''ArrowUp'' st"
    by blast+
  have "findIndex (\<lambda>node. id' node = s) allNodes = Some i"
    using i by (simp add: findIndex_Some)
  then have fi: "findIndex (\<lambda>node. id' node = s) (collectNodes pd (expandedItems st)) = Some i"
    by (simp only: an)
  have "allNodes ! i \<in> set allNodes" using i(1) by (rule nth_mem)
  then have "s \<in> id' ` set allNodes" using i(2) by force
  then have "s \<in> id' ` set (collectNodes pd (expandedItems st))" by (simp only: an)
  then obtain cur where cur: "flatData_get h (flatNodePointers pd) s = JSObject cur"
    using currentNode_is_object by blast
  note u = keyboard_unfold [OF sel cur fi, of props]
  have 1: "i + 1 < length allNodes \<longrightarrow> selectedItemId down = Some (id' (allNodes ! (i + 1)))"
    unfolding du u by (simp add: sel_simps an)
  have 2: "i + 1 = length allNodes \<longrightarrow> selectedItemId down = Some s"
    unfolding du u using sel(1) by (auto simp: sel_simps an)
  have 3: "0 < i \<longrightarrow> selectedItemId up = Some (id' (allNodes ! (i - 1)))"
    unfolding du u by (simp add: sel_simps an)
  have 4: "i = 0 \<longrightarrow> selectedItemId up = Some s"
    unfolding du u using sel(1) by (simp add: sel_simps)
  have 5: "expandedItems down = expandedItems st" "expandedItems up = expandedItems st"
    unfolding du u by (simp_all add: sel_simps)
  from 1 2 3 4 5
  show "(i + 1 < length allNodes \<longrightarrow> selectedItemId down = Some (id' (allNodes ! (i + 1))))
      \<and> (i + 1 = length allNodes \<longrightarrow> selectedItemId down = Some s)
      \<and> (0 < i \<longrightarrow> selectedItemId up = Some (id' (allNodes ! (i - 1))))
      \<and> (i = 0 \<longrightarrow> selectedItemId up = Some s)
      \<and> expandedItems down = expandedItems st \<and> expandedItems up = expandedItems st"
    by blast
next
  assume "''A'' \<in> set ex \<and> ''B'' \<in> set ex \<and> (d = Single exampleTree \<or> d = Array [exampleTree])"
  then have "''A'' \<in> set ex" "''B'' \<in> set ex" "d = Single exampleTree \<or> d = Array [exampleTree]"
    by blast+
  then show "visits h' props' (processedData d c)
        [''ArrowDown'', ''ArrowDown'', ''ArrowDown'', ''ArrowUp'']
        \<lparr>selectedItemId = Some ''A'', expandedItems = ex, draggedItem = dr, trace = tr\<rparr>
      = [Some ''B'', Some ''D'', Some ''E'', Some ''D'']"
    by (rule example_visits)
qed

text \<open>The first key of the sequence, and the whole sequence, with \<open>A\<close> and \<open>B\<close> expanded.\<close>

theorem arrow_down_up_witness:
  "selectedItemId (handleTreeKeyboardNavigation exampleHost (exampleProps (Single exampleTree) None) examplePd
      ''ArrowDown'' (exampleState (Some ''A'') [''A'', ''B''])) = Some ''B''
   \<and> selectedItemId (handleTreeKeyboardNavigation exampleHost (exampleProps (Single exampleTree) None) examplePd
      ''ArrowUp'' (exampleState (Some ''A'') [''A'', ''B''])) = Some ''A''
   \<and> visits exampleHost (exampleProps (Single exampleTree) None) examplePd
        [''ArrowDown'', ''ArrowDown'', ''ArrowDown'', ''ArrowUp'']
        (exampleState (Some ''A'') [''A'', ''B''])
      = [Some ''B'', Some ''D'', Some ''E'', Some ''D'']"
proof -
  let ?P = "exampleProps (Single exampleTree) None"
  let ?st = "exampleState (Some ''A'') [''A'', ''B'']"
  let ?all = "collectNodes examplePd (expandedItems ?st)"
  have a: "selectedItemId ?st = Some ''A''" by (simp add: exampleState_def)
  have b: "0 < length ?all" "id' (?all ! 0) = ''A''" "0 + 1 < length ?all"
    "id' (?all ! (0 + 1)) = ''B''"
    by code_simp+
  have c: "?st = \<lparr>selectedItemId = Some ''A'', expandedItems = [''A'', ''B''],
      draggedItem = None, trace = []\<rparr>"
    by (simp add: exampleState_def)
  from arrow_down_up [where st = ?st and s = "''A''" and allNodes = ?all and pd = examplePd
      and i = 0 and props = ?P and props' = ?P and h = exampleHost and h' = exampleHost
      and ex = "[''A'', ''B'']"
      and d = "Single exampleTree" and c = 0 and dr = None and tr = "[]"
      and d' = "Single exampleTree" and c' = 0 and ex' = "[]"
      and down = "handleTreeKeyboardNavigation exampleHost ?P examplePd ''ArrowDown'' ?st"
      and up = "handleTreeKeyboardNavigation exampleHost ?P examplePd ''ArrowUp'' ?st"] a b
  show ?thesis unfolding c examplePd_def by simp
qed

text \<open>
  C3 as stated fails on its example: when \<open>B\<close> is expanded and \<open>A\<close> is not, only \<open>A\<close> is
  visible and the four keys leave the selection at \<open>A\<close>.
\<close>

theorem arrow_down_up_counterexample:
  "''B'' \<in> set (expandedItems (exampleState (Some ''A'') [''B'']))
   \<and> visits exampleHost (exampleProps (Single exampleTree) None) examplePd
        [''ArrowDown'', ''ArrowDown'', ''ArrowDown'', ''ArrowUp'']
        (exampleState (Some ''A'') [''B''])
      = [Some ''A'', Some ''A'', Some ''A'', Some ''A'']"
  by code_simp

text \<open>
  C4 (amended). Let the tree be built by the model builder, the selected id be non-empty,
  \<open>cur\<close> the node the flat index holds for it, and let a node with that id occur in the
  flattened visible list. On ArrowLeft: if the id is expanded, every occurrence of it is
  removed from \<^verbatim>\<open>expandedItems\<close> and the selection stays; otherwise, if \<open>cur\<close> has a
  parent, the parent (the object whose \<^verbatim>\<open>children\<close> holds \<open>cur\<close>) becomes selected and
  \<^verbatim>\<open>expandedItems\<close> stays; otherwise \<open>cur\<close> is a root and nothing changes.
\<close>

theorem arrow_left:
  assumes "selectedItemId st = Some s" "s \<noteq> []"
    and "pd = processedData d c" "flatData_get h (flatNodePointers pd) s = JSObject cur"
    and "s \<in> id' ` set (collectNodes pd (expandedItems st))"
    and "st' = handleTreeKeyboardNavigation h props pd ''ArrowLeft'' st"
  shows "id' cur = s
    \<and> (s \<in> set (expandedItems st) \<longrightarrow>
          expandedItems st' = filter (\<lambda>i. i \<noteq> s) (expandedItems st)
          \<and> s \<notin> set (expandedItems st') \<and> selectedItemId st' = Some s)
    \<and> (\<forall>r. s \<notin> set (expandedItems st) \<and> parent cur = Some r \<longrightarrow>
          (\<exists>p cs. deref pd r = Some p \<and> children p = Some cs \<and> cur \<in> set cs
             \<and> selectedItemId st' = Some (id' p))
          \<and> expandedItems st' = expandedItems st)
    \<and> (s \<notin> set (expandedItems st) \<and> parent cur = None \<longrightarrow>
          cur \<in> set (roots pd) \<and> selectedItemId st' = Some s
          \<and> expandedItems st' = expandedItems st)"
proof -
  obtain i where "findIndex (\<lambda>node. id' node = s) (collectNodes pd (expandedItems st)) = Some i"
    using visible_index [OF assms(5)] ..
  note u = keyboard_unfold [OF assms(1,2,4) this, of props "''ArrowLeft''"]
  have cur: "id' cur = s" "cur \<in> set (all_nodes pd)"
    using currentNode_is_object [OF assms(5), of h] assms(4) by auto
  have cases: "cur \<in> set (roots pd) \<or>
      (\<exists>p\<in>set (all_nodes pd). \<exists>cs. children p = Some cs \<and> cur \<in> set cs)"
    using cur(2) processed_cases unfolding assms(3) by blast
  have par: "\<exists>p cs. deref pd r = Some p \<and> children p = Some cs \<and> cur \<in> set cs"
    if "parent cur = Some r" for r
  proof -
    from that have "cur \<notin> set (roots pd)"
      using processed_roots unfolding assms(3) by fastforce
    with cases obtain p cs where p: "p \<in> set (all_nodes pd)" "children p = Some cs" "cur \<in> set cs"
      by blast
    then have "parent cur = Some (ref p)" using processed_child unfolding assms(3) by blast
    with that have "r = ref p" by simp
    then have "deref pd r = Some p"
      using p(1) deref_distinct processed_refs_distinct unfolding assms(3) by blast
    with p show ?thesis by blast
  qed
  have root: "cur \<in> set (roots pd)" if "parent cur = None"
  proof (rule ccontr)
    assume "cur \<notin> set (roots pd)"
    with cases obtain p cs where "p \<in> set (all_nodes pd)" "children p = Some cs" "cur \<in> set cs"
      by blast
    then have "parent cur = Some (ref p)" using processed_child unfolding assms(3) by blast
    with that show False by simp
  qed
  show ?thesis
    unfolding assms(6) u using assms(1) cur(1) par root by (auto simp: sel_simps)
qed

text \<open>ArrowLeft on the visible leaf \<open>D\<close> selects \<open>B\<close>; on the expanded \<open>B\<close> it collapses \<open>B\<close>.\<close>

theorem arrow_left_witness:
  "selectedItemId (handleTreeKeyboardNavigation exampleHost (exampleProps (Single exampleTree) None) examplePd
      ''ArrowLeft'' (exampleState (Some ''D'') [''A'', ''B''])) = Some ''B''
   \<and> expandedItems (handleTreeKeyboardNavigation exampleHost (exampleProps (Single exampleTree) None) examplePd
      ''ArrowLeft'' (exampleState (Some ''B'') [''A'', ''B''])) = [''A'']"
proof -
  let ?P = "exampleProps (Single exampleTree) None"
  let ?D = "the (own (flatNodePointers examplePd) ''D'')"
  let ?B = "the (own (flatNodePointers examplePd) ''B'')"
  have a: "selectedItemId (exampleState (Some s) ex) = Some s" for s ex
    by (simp add: exampleState_def)
  have g: "expandedItems (exampleState (Some s) ex) = ex" for s ex
    by (simp add: exampleState_def)
  have pd: "examplePd = processedData (Single exampleTree) 0" by (simp add: examplePd_def)
  have cD: "flatData_get exampleHost (flatNodePointers examplePd) ''D'' = JSObject ?D" by code_simp
  have cB: "flatData_get exampleHost (flatNodePointers examplePd) ''B'' = JSObject ?B" by code_simp
  have vD: "''D'' \<in> id' ` set (collectNodes examplePd (expandedItems (exampleState (Some ''D'') [''A'', ''B''])))"
    by code_simp
  have vB: "''B'' \<in> id' ` set (collectNodes examplePd (expandedItems (exampleState (Some ''B'') [''A'', ''B''])))"
    by code_simp
  have pD: "parent ?D = Some 1" by code_simp
  have dB: "deref examplePd 1 = Some ?B" "id' ?B = ''B''" by code_simp+
  from arrow_left [OF a _ pd cD vD refl, of ?P] pD dB
  have "selectedItemId (handleTreeKeyboardNavigation exampleHost ?P examplePd
      ''ArrowLeft'' (exampleState (Some ''D'') [''A'', ''B''])) = Some ''B''"
    by (auto simp: g)
  moreover from arrow_left [OF a _ pd cB vB refl, of ?P]
  have "expandedItems (handleTreeKeyboardNavigation exampleHost ?P examplePd
      ''ArrowLeft'' (exampleState (Some ''B'') [''A'', ''B''])) = [''A'']"
    by (auto simp: g)
  ultimately show ?thesis ..
qed

text \<open>
  C4 as stated fails for a selected node that is not visible. Mounting \<^verbatim>\<open>A{B{D,E},C}\<close>
  with \<^verbatim>\<open>initialSelectedItemId\<close> \<open>D\<close> and \<^verbatim>\<open>expandAll\<close> leaves \<open>D\<close> selected and nothing
  expanded; \<open>D\<close> is collapsed and has the parent \<open>B\<close>, yet ArrowLeft keeps \<open>D\<close> selected.
\<close>

theorem arrow_left_counterexample:
  "mountEffect (expandAllProps (Some ''D'')) examplePd (initialState (expandAllProps (Some ''D'')))
     = exampleState (Some ''D'') []
   \<and> parent (the (own (flatNodePointers examplePd) ''D'')) \<noteq> None
   \<and> selectedItemId (handleTreeKeyboardNavigation exampleHost (expandAllProps (Some ''D'')) examplePd
        ''ArrowLeft'' (exampleState (Some ''D'') [])) = Some ''D''"
  by code_simp

section \<open>The expansion list (C1, C9)\<close>

text \<open>
  C1 (amended). On mount with a non-empty \<^verbatim>\<open>initialSelectedItemId\<close> \<open>t\<close>, without
  \<^verbatim>\<open>expandAll\<close>, on data with unique ids: if a node has the id \<open>t\<close> and the data is not a
  single item that is itself that node, the ids in \<^verbatim>\<open>expandedItems\<close> after the walk are
  exactly the ids of the proper ancestors of that node together with \<open>t\<close> itself;
  otherwise (no node has the id, or the single root item has it) \<^verbatim>\<open>expandedItems\<close> stays
  empty.
\<close>

theorem mount_walk:
  assumes "initialSelectedItemId props = Some t" "t \<noteq> []" "expandAll props \<noteq> Some True"
    and "distinct (input_ids (data props))" "pd = processedData (data props) c"
  shows "set (expandedItems (mountEffect props pd (initialState props))) =
    (if t \<in> set (input_ids (data props))
        \<and> (case data props of Single x \<Rightarrow> item_id x \<noteq> t | Array xs \<Rightarrow> True)
     then insert t (set (ancestor_ids pd t)) else {})"
proof -
  let ?ids = "snd (walkTreeItems pd t [])"
  have e: "expandedItems (mountEffect props pd (initialState props)) = ?ids"
    using assms(1-3) by (simp add: mountEffect_def initialState_def Let_def)
  have d: "distinct (map id' (all_nodes pd))" using assms(4,5) by (simp add: processed_ids)
  have m: "(t \<in> id' ` set (all_nodes pd)) = (t \<in> set (input_ids (data props)))"
    using assms(5) by (simp add: processed_id_set)
  have er: "erase pd = data props" using assms(5) by (simp add: processed_erase)
  show ?thesis
  proof (cases pd)
    case (Single x)
    then obtain y where y: "data props = Single y" "y = erase_item x"
      using er by (auto simp: erase_def)
    have "item_id y = id' x" using y(2) by (cases x rule: PNode_cases) simp_all
    with Single d m y(1) walk_spec(1) [of x t "[]"] show ?thesis
      unfolding e by (auto simp: walkTreeItems_def all_nodes_def ancestor_ids_def)
  next
    case (Array xs)
    then have "data props = Array (erase_array xs)" using er by (auto simp: erase_def)
    with Array d m walk_spec(2) [of xs t "[]"] show ?thesis
      unfolding e by (auto simp: walkTreeItems_def all_nodes_def ancestor_ids_def)
  qed
qed

text \<open>The data of \<^verbatim>\<open>App.tsx\<close>, mounted with \<^verbatim>\<open>initialSelectedItemId\<close> \<open>3\<close>.\<close>

theorem mount_walk_witness:
  "expandedItems (mountEffect (exampleProps appData (Some ''3'')) (processedData appData 0)
      (initialState (exampleProps appData (Some ''3'')))) = [''3'', ''2'', ''2'', ''1'', ''1'']
   \<and> ancestor_ids (processedData appData 0) ''3'' = [''1'', ''2'']
   \<and> set [''3'', ''2'', ''2'', ''1'', ''1''] = insert ''3'' (set [''1'', ''2''])"
proof -
  let ?P = "exampleProps appData (Some ''3'')"
  let ?pd = "processedData appData 0"
  have a: "initialSelectedItemId ?P = Some ''3''" and b: "''3'' \<noteq> []"
    and c: "expandAll ?P \<noteq> Some True" and dt: "data ?P = appData"
    by (simp_all add: exampleProps_def)
  have d: "distinct (input_ids (data ?P))" unfolding dt by code_simp
  have p: "?pd = processedData (data ?P) 0" by (simp add: dt)
  have e: "expandedItems (mountEffect ?P ?pd (initialState ?P)) = [''3'', ''2'', ''2'', ''1'', ''1'']"
    by code_simp
  have f: "ancestor_ids ?pd ''3'' = [''1'', ''2'']" by code_simp
  have g: "''3'' \<in> set (input_ids appData)"
    "(case appData of Single x \<Rightarrow> item_id x \<noteq> ''3'' | Array xs \<Rightarrow> True)"
    by code_simp+
  from mount_walk [OF a b c d p] e f g show ?thesis by (simp add: dt)
qed

text \<open>
  C1 as stated fails: for \<^verbatim>\<open>[A{B{D,E},C}]\<close> and the target \<open>D\<close> the walk installs
  \<open>D\<close>, \<open>B\<close>, \<open>B\<close>, \<open>A\<close>, \<open>A\<close>; the target's own id is among them, and it is not the id
  of a proper ancestor of the target.
\<close>

theorem mount_walk_counterexample:
  "expandedItems (mountEffect (exampleProps (Array [exampleTree]) (Some ''D''))
          (processedData (Array [exampleTree]) 0)
          (initialState (exampleProps (Array [exampleTree]) (Some ''D''))))
      = [''D'', ''B'', ''B'', ''A'', ''A'']
   \<and> ancestor_ids (processedData (Array [exampleTree]) 0) ''D'' = [''A'', ''B'']
   \<and> set (expandedItems (mountEffect (exampleProps (Array [exampleTree]) (Some ''D''))
          (processedData (Array [exampleTree]) 0)
          (initialState (exampleProps (Array [exampleTree]) (Some ''D'')))))
      \<noteq> set (ancestor_ids (processedData (Array [exampleTree]) 0) ''D'')"
  by code_simp

text \<open>
  C9 (amended). The expand/collapse toggle of a node (\<^verbatim>\<open>syncExpandCollapseState\<close>, which
  calls \<^verbatim>\<open>handleToggleExpand\<close> only when the membership of the node's id changes) and the
  keyboard handler, for every key, keep \<^verbatim>\<open>expandedItems\<close> free of duplicates.
\<close>

theorem expanded_distinct:
  assumes "distinct (expandedItems st)"
  shows "distinct (expandedItems (syncExpandCollapseState item values st))
    \<and> distinct (expandedItems (handleTreeKeyboardNavigation h props pd key st))"
proof -
  have "distinct (expandedItems (syncExpandCollapseState item values st))"
    using assms by (auto simp: syncExpandCollapseState_def Let_def sel_simps)
  moreover have "distinct (expandedItems (handleTreeKeyboardNavigation h props pd key st))"
    using assms
    by (simp add: handleTreeKeyboardNavigation_def Let_def sel_simps
        split: option.split jsval.split)
  ultimately show ?thesis ..
qed

text \<open>Expanding \<open>A\<close> by the toggle and then \<open>B\<close> by ArrowRight, from the empty list.\<close>

theorem expanded_distinct_witness:
  "distinct (expandedItems (exampleState (Some ''B'') []))
   \<and> expandedItems (handleTreeKeyboardNavigation exampleHost (exampleProps (Single exampleTree) None) examplePd
        ''ArrowRight''
        (syncExpandCollapseState (the (own (flatNodePointers examplePd) ''A'')) [''A'']
          (exampleState (Some ''B'') []))) = [''A'', ''B'']
   \<and> distinct (expandedItems (handleTreeKeyboardNavigation
        exampleHost (exampleProps (Single exampleTree) None) examplePd ''ArrowRight''
        (syncExpandCollapseState (the (own (flatNodePointers examplePd) ''A'')) [''A'']
          (exampleState (Some ''B'') []))))"
proof -
  let ?P = "exampleProps (Single exampleTree) None"
  let ?A = "the (own (flatNodePointers examplePd) ''A'')"
  let ?st = "exampleState (Some ''B'') []"
  have a: "distinct (expandedItems ?st)" by (simp add: exampleState_def)
  have b: "expandedItems (handleTreeKeyboardNavigation exampleHost ?P examplePd ''ArrowRight''
        (syncExpandCollapseState ?A [''A''] ?st)) = [''A'', ''B'']"
    by code_simp
  from expanded_distinct [OF a, of ?A "[''A'']"]
  have "distinct (expandedItems (syncExpandCollapseState ?A [''A''] ?st))" by blast
  from expanded_distinct [OF this, of ?A "[]" exampleHost ?P examplePd "''ArrowRight''"] a b
  show ?thesis by blast
qed

text \<open>
  C9 as stated fails for the mount-time walk: started from the empty list, it installs a
  list in which the ids of the ancestors occur twice.
\<close>

theorem expanded_distinct_counterexample:
  "expandedItems (initialState (exampleProps (Array [exampleTree]) (Some ''D''))) = []
   \<and> \<not> distinct (expandedItems (mountEffect (exampleProps (Array [exampleTree]) (Some ''D''))
          (processedData (Array [exampleTree]) 0)
          (initialState (exampleProps (Array [exampleTree]) (Some ''D'')))))"
  by code_simp

end
